theory Spec2Isabelle
  imports Main "HOL-Library.Sublist"
begin

section \<open>Values, errors and outcomes\<close>

text \<open>
  The two utilities of the repository are modelled: \<^verbatim>\<open>safeStringify\<close>
  (safeStringify.js) and \<^verbatim>\<open>parseContent\<close> (smartParse.js).

  \<^verbatim>\<open>safeStringify\<close> walks a value graph that may be cyclic and tells composites
  apart by identity, so its input is a value together with a heap: a composite is a
  reference \<open>VRef a\<close> to the heap cell \<open>a\<close>. Numbers are integers (number formatting of
  fractions is not modelled); strings are lists of 8-bit characters. User-defined
  \<^verbatim>\<open>toJSON\<close> methods, getters, proxies, boxed primitives and sparse arrays are
  outside the model: a heap cell is an array, a plain object, a Date, a RegExp or a
  function. A reference to no cell does not occur in a JavaScript heap; where the model
  meets one, it throws a TypeError.
\<close>

type_synonym addr = nat

datatype jsval =
    VUndefined
  | VNull
  | VBool bool
  | VNum int
  | VBigInt int
  | VStr string
  | VSymbol string
  | VRef addr

text \<open>
  A Date is either valid, with the text of \<^verbatim>\<open>toISOString()\<close> and the text of
  \<^verbatim>\<open>toString()\<close>, or invalid. A RegExp and a function carry the text that their
  \<^verbatim>\<open>toString()\<close> returns.
\<close>

datatype jsdate = ValidDate string string | InvalidDate

datatype hobj =
    HArray "jsval list"
  | HObject "(string \<times> jsval) list"
  | HDate jsdate
  | HRegExp string
  | HFunction string

type_synonym heap = "hobj list"

definition deref :: "heap \<Rightarrow> addr \<Rightarrow> hobj option" where
  "deref h a = (if a < length h then Some (h ! a) else None)"

text \<open>
  Values without identity, for \<^verbatim>\<open>parseContent\<close>: what \<^verbatim>\<open>JSON.parse\<close> builds and
  what a rule receives and returns. An object is the list of its own members, which are
  data properties with distinct keys; its prototype is \<^verbatim>\<open>Object.prototype\<close>.
\<close>

datatype jv =
    JUndef
  | JNull
  | JBool bool
  | JNum int
  | JStr string
  | JArr "jv list"
  | JObj "(string \<times> jv) list"

text \<open>
  What a JavaScript \<^verbatim>\<open>throw\<close> can carry here: the engine's own errors, the two
  \<^verbatim>\<open>Error\<close> objects that smartParse.js creates, an \<^verbatim>\<open>Error\<close> object created by
  caller-supplied code, and any other value that caller-supplied code throws. A thrown
  value that is plain data is \<open>ThrownValue\<close>. \<open>Unreadable e\<close> is any other thrown
  object from which a message cannot be taken: reading its \<^verbatim>\<open>message\<close> or
  appending it to a string throws \<open>e\<close> (a TypeError for a \<^verbatim>\<open>message\<close> that is a
  Symbol or an object without a primitive value, the exception of a getter or of a
  conversion method otherwise).
\<close>

datatype error =
    TypeError
  | RangeError
  | SyntaxError
  | ResponseRequired
  | ParseFailed error
  | CallerError string
  | ThrownValue jv
  | Unreadable error

text \<open>
  A call returns, throws, or (in the model only) runs out of fuel. Fuel bounds the
  nesting depth of a traversal of the heap.
\<close>

datatype 'a outcome = Returns 'a | Throws error | Timeout

section \<open>Text primitives of the host\<close>

abbreviation dq :: char where "dq \<equiv> CHR 0x22"
abbreviation bsl :: char where "bsl \<equiv> CHR 0x5C"

definition digit_char :: "nat \<Rightarrow> char" where
  "digit_char d = ''0123456789'' ! (d mod 10)"

fun show_nat :: "nat \<Rightarrow> string" where
  "show_nat n = (if n < 10 then [digit_char n] else show_nat (n div 10) @ [digit_char n])"

declare show_nat.simps [simp del]

definition show_int :: "int \<Rightarrow> string" where
  "show_int i = (if i < 0 then CHR ''-'' # show_nat (nat (- i)) else show_nat (nat i))"

definition hex_char :: "nat \<Rightarrow> char" where
  "hex_char d = ''0123456789abcdef'' ! (d mod 16)"

text \<open>\<^verbatim>\<open>QuoteJSONString\<close> of ECMA-262, on 8-bit characters.\<close>

definition escape_char :: "char \<Rightarrow> string" where
  "escape_char c =
     (if c = dq then [bsl, dq]
      else if c = bsl then [bsl, bsl]
      else if c = CHR 0x08 then [bsl, CHR ''b'']
      else if c = CHR 0x09 then [bsl, CHR ''t'']
      else if c = CHR 0x0A then [bsl, CHR ''n'']
      else if c = CHR 0x0C then [bsl, CHR ''f'']
      else if c = CHR 0x0D then [bsl, CHR ''r'']
      else if of_char c < (32 :: nat)
        then [bsl, CHR ''u'', CHR ''0'', CHR ''0'',
              hex_char (of_char c div 16), hex_char (of_char c)]
      else [c])"

definition quote_json :: "string \<Rightarrow> string" where
  "quote_json s = dq # concat (map escape_char s) @ [dq]"

fun join :: "string list \<Rightarrow> string" where
  "join [] = []"
| "join [p] = p"
| "join (p # q # ps) = p @ CHR '','' # join (q # ps)"

section \<open>safeStringify\<close>

subsection \<open>Type tests\<close>

definition is_date :: "heap \<Rightarrow> jsval \<Rightarrow> bool" where
  "is_date h v = (case v of VRef a \<Rightarrow> (case deref h a of Some (HDate d) \<Rightarrow> True | _ \<Rightarrow> False)
                   | _ \<Rightarrow> False)"

definition is_regexp :: "heap \<Rightarrow> jsval \<Rightarrow> bool" where
  "is_regexp h v = (case v of VRef a \<Rightarrow> (case deref h a of Some (HRegExp s) \<Rightarrow> True | _ \<Rightarrow> False)
                   | _ \<Rightarrow> False)"

definition is_function :: "heap \<Rightarrow> jsval \<Rightarrow> bool" where
  "is_function h v = (case v of VRef a \<Rightarrow> (case deref h a of Some (HFunction s) \<Rightarrow> True | _ \<Rightarrow> False)
                   | _ \<Rightarrow> False)"

text \<open>\<^verbatim>\<open>typeof val === 'object' && val !== null\<close>: every heap cell but a function.\<close>

definition is_object :: "heap \<Rightarrow> jsval \<Rightarrow> bool" where
  "is_object h v = (case v of VRef a \<Rightarrow> \<not> is_function h v | _ \<Rightarrow> False)"

text \<open>\<^verbatim>\<open>toISOString()\<close> throws a RangeError on an invalid Date.\<close>

definition toISOString :: "jsdate \<Rightarrow> string outcome" where
  "toISOString d = (case d of ValidDate utc loc \<Rightarrow> Returns utc | InvalidDate \<Rightarrow> Throws RangeError)"

text \<open>
  \<^verbatim>\<open>val.toISOString()\<close> / \<^verbatim>\<open>val.toString()\<close> of the three special kinds, as both
  the top-level dispatch (lines 15-20) and the replacer (lines 41-47) call them.
  \<open>None\<close>: the value is none of the three.
\<close>

definition special_text :: "heap \<Rightarrow> jsval \<Rightarrow> string outcome option" where
  "special_text h v =
     (case v of
        VRef a \<Rightarrow>
          (case deref h a of
             Some (HDate d) \<Rightarrow> Some (toISOString d)
           | Some (HRegExp src) \<Rightarrow> Some (Returns src)
           | Some (HFunction src) \<Rightarrow> Some (Returns src)
           | _ \<Rightarrow> None)
      | _ \<Rightarrow> None)"

subsection \<open>The replacer (lines 29-50)\<close>

definition circular_placeholder :: string where
  "circular_placeholder = ''[Circular Reference]''"

text \<open>
  The \<^verbatim>\<open>WeakSet\<close> \<open>seen\<close> is the set of the addresses added so far; the replacer
  returns the replacement together with the updated set.
\<close>

definition replacer :: "heap \<Rightarrow> addr set \<Rightarrow> jsval \<Rightarrow> (jsval \<times> addr set) outcome" where
  "replacer h seen val =
     (case (if is_object h val
            then (case val of
                    VRef a \<Rightarrow> if a \<in> seen then Inl (VStr circular_placeholder)
                              else Inr (insert a seen)
                  | _ \<Rightarrow> Inr seen)
            else Inr seen) of
        Inl early \<Rightarrow> Returns (early, seen)
      | Inr seen' \<Rightarrow>
          (case special_text h val of
             Some (Returns s) \<Rightarrow> Returns (VStr s, seen')
           | Some (Throws e) \<Rightarrow> Throws e
           | Some Timeout \<Rightarrow> Timeout
           | None \<Rightarrow> Returns (val, seen')))"

subsection \<open>JSON.stringify with the replacer\<close>

text \<open>
  \<^verbatim>\<open>SerializeJSONProperty\<close> of ECMA-262, for a replacer function and no indentation.
  Its steps, in order: a Date is replaced by the result of \<^verbatim>\<open>Date.prototype.toJSON\<close>
  (the ISO text, or \<^verbatim>\<open>null\<close> for an invalid Date); the replacer is called; the
  replaced value is rendered. \<open>None\<close> is the result \<^verbatim>\<open>undefined\<close>: it is
  \<^verbatim>\<open>null\<close> in an array and omits the member of an object. \<open>stack\<close> is the
  engine's own list of the composites being rendered, whose check throws a TypeError
  on a cyclic structure.
\<close>

definition toJSON :: "heap \<Rightarrow> jsval \<Rightarrow> jsval" where
  "toJSON h v =
     (case v of
        VRef a \<Rightarrow>
          (case deref h a of
             Some (HDate (ValidDate utc loc)) \<Rightarrow> VStr utc
           | Some (HDate InvalidDate) \<Rightarrow> VNull
           | _ \<Rightarrow> v)
      | _ \<Rightarrow> v)"

definition array_text :: "string list \<Rightarrow> string" where
  "array_text parts = ''['' @ join parts @ '']''"

definition object_text :: "string list \<Rightarrow> string" where
  "object_text members = ''{'' @ join members @ ''}''"

definition element_text :: "string option \<Rightarrow> string" where
  "element_text r = (case r of None \<Rightarrow> ''null'' | Some s \<Rightarrow> s)"

definition member_text :: "string \<Rightarrow> string option \<Rightarrow> string list" where
  "member_text k r = (case r of None \<Rightarrow> [] | Some s \<Rightarrow> [quote_json k @ '':'' @ s])"

fun ser_property :: "nat \<Rightarrow> heap \<Rightarrow> addr list \<Rightarrow> jsval \<Rightarrow> addr set \<Rightarrow> (string option \<times> addr set) outcome"
and ser_elements :: "nat \<Rightarrow> heap \<Rightarrow> addr list \<Rightarrow> jsval list \<Rightarrow> addr set \<Rightarrow> (string list \<times> addr set) outcome"
and ser_members :: "nat \<Rightarrow> heap \<Rightarrow> addr list \<Rightarrow> (string \<times> jsval) list \<Rightarrow> addr set \<Rightarrow> (string list \<times> addr set) outcome"
where
  "ser_property 0 h stack v seen = Timeout"
| "ser_property (Suc n) h stack v seen =
     (case replacer h seen (toJSON h v) of
        Throws e \<Rightarrow> Throws e
      | Timeout \<Rightarrow> Timeout
      | Returns (v', seen') \<Rightarrow>
          (case v' of
             VNull \<Rightarrow> Returns (Some ''null'', seen')
           | VBool b \<Rightarrow> Returns (Some (if b then ''true'' else ''false''), seen')
           | VStr s \<Rightarrow> Returns (Some (quote_json s), seen')
           | VNum i \<Rightarrow> Returns (Some (show_int i), seen')
           | VBigInt i \<Rightarrow> Throws TypeError
           | VUndefined \<Rightarrow> Returns (None, seen')
           | VSymbol d \<Rightarrow> Returns (None, seen')
           | VRef a \<Rightarrow>
               (case deref h a of
                  None \<Rightarrow> Throws TypeError
                | Some (HFunction src) \<Rightarrow> Returns (None, seen')
                | Some (HArray xs) \<Rightarrow>
                    if a \<in> set stack then Throws TypeError
                    else (case ser_elements n h (a # stack) xs seen' of
                            Returns (parts, seen'') \<Rightarrow> Returns (Some (array_text parts), seen'')
                          | Throws e \<Rightarrow> Throws e
                          | Timeout \<Rightarrow> Timeout)
                | Some (HObject kvs) \<Rightarrow>
                    if a \<in> set stack then Throws TypeError
                    else (case ser_members n h (a # stack) kvs seen' of
                            Returns (members, seen'') \<Rightarrow> Returns (Some (object_text members), seen'')
                          | Throws e \<Rightarrow> Throws e
                          | Timeout \<Rightarrow> Timeout)
                | Some other \<Rightarrow> Returns (Some (object_text []), seen'))))"
| "ser_elements n h stack [] seen = Returns ([], seen)"
| "ser_elements n h stack (x # xs) seen =
     (case ser_property n h stack x seen of
        Throws e \<Rightarrow> Throws e
      | Timeout \<Rightarrow> Timeout
      | Returns (r, seen') \<Rightarrow>
          (case ser_elements n h stack xs seen' of
             Throws e \<Rightarrow> Throws e
           | Timeout \<Rightarrow> Timeout
           | Returns (parts, seen'') \<Rightarrow> Returns (element_text r # parts, seen'')))"
| "ser_members n h stack [] seen = Returns ([], seen)"
| "ser_members n h stack ((k, x) # kvs) seen =
     (case ser_property n h stack x seen of
        Throws e \<Rightarrow> Throws e
      | Timeout \<Rightarrow> Timeout
      | Returns (r, seen') \<Rightarrow>
          (case ser_members n h stack kvs seen' of
             Throws e \<Rightarrow> Throws e
           | Timeout \<Rightarrow> Timeout
           | Returns (members, seen'') \<Rightarrow> Returns (member_text k r @ members, seen'')))"

subsection \<open>String(value), the fallback coercion\<close>

text \<open>
  \<^verbatim>\<open>String(value)\<close>: a primitive is converted directly (a Symbol gives its
  descriptive text); an object is converted by its \<^verbatim>\<open>toString\<close> method. A plain
  object gives \<^verbatim>\<open>[object Object]\<close>; an array joins the conversions of its elements
  with commas, where \<^verbatim>\<open>undefined\<close> and \<^verbatim>\<open>null\<close> give the empty text, a Symbol
  element throws a TypeError (the implicit conversion), and an array that is already
  being joined gives the empty text (the cycle check of the engine's
  \<^verbatim>\<open>Array.prototype.join\<close>).
\<close>

definition date_text :: "jsdate \<Rightarrow> string" where
  "date_text d = (case d of ValidDate utc loc \<Rightarrow> loc | InvalidDate \<Rightarrow> ''Invalid Date'')"

fun to_text :: "nat \<Rightarrow> heap \<Rightarrow> addr list \<Rightarrow> jsval \<Rightarrow> string outcome"
and join_elements :: "nat \<Rightarrow> heap \<Rightarrow> addr list \<Rightarrow> jsval list \<Rightarrow> string list outcome"
where
  "to_text 0 h joining v = Timeout"
| "to_text (Suc n) h joining v =
     (case v of
        VUndefined \<Rightarrow> Returns ''undefined''
      | VNull \<Rightarrow> Returns ''null''
      | VBool b \<Rightarrow> Returns (if b then ''true'' else ''false'')
      | VNum i \<Rightarrow> Returns (show_int i)
      | VBigInt i \<Rightarrow> Returns (show_int i)
      | VStr s \<Rightarrow> Returns s
      | VSymbol d \<Rightarrow> Returns (''Symbol('' @ d @ '')'')
      | VRef a \<Rightarrow>
          (case deref h a of
             None \<Rightarrow> Throws TypeError
           | Some (HObject kvs) \<Rightarrow> Returns ''[object Object]''
           | Some (HDate d) \<Rightarrow> Returns (date_text d)
           | Some (HRegExp src) \<Rightarrow> Returns src
           | Some (HFunction src) \<Rightarrow> Returns src
           | Some (HArray xs) \<Rightarrow>
               if a \<in> set joining then Returns []
               else (case join_elements n h (a # joining) xs of
                       Returns parts \<Rightarrow> Returns (join parts)
                     | Throws e \<Rightarrow> Throws e
                     | Timeout \<Rightarrow> Timeout)))"
| "join_elements n h joining [] = Returns []"
| "join_elements n h joining (x # xs) =
     (case (case x of
              VUndefined \<Rightarrow> Returns []
            | VNull \<Rightarrow> Returns []
            | VSymbol d \<Rightarrow> Throws TypeError
            | _ \<Rightarrow> to_text n h joining x) of
        Throws e \<Rightarrow> Throws e
      | Timeout \<Rightarrow> Timeout
      | Returns p \<Rightarrow>
          (case join_elements n h joining xs of
             Throws e \<Rightarrow> Throws e
           | Timeout \<Rightarrow> Timeout
           | Returns parts \<Rightarrow> Returns (p # parts)))"

subsection \<open>safeStringify (lines 9-57)\<close>

text \<open>What \<^verbatim>\<open>safeStringify\<close> hands back: a string, or the value \<^verbatim>\<open>undefined\<close>.\<close>

datatype jsret = RString string | RUndefined

text \<open>
  \<^verbatim>\<open>JSON.stringify(value, replacer)\<close> with a fresh \<^verbatim>\<open>WeakSet\<close>: the property
  \<^verbatim>\<open>""\<close> of a wrapper object is rendered; the result is a string or
  \<^verbatim>\<open>undefined\<close>.
\<close>

definition JSON_stringify :: "nat \<Rightarrow> heap \<Rightarrow> jsval \<Rightarrow> jsret outcome" where
  "JSON_stringify fuel h v =
     (case ser_property fuel h [] v {} of
        Returns (Some s, seen) \<Rightarrow> Returns (RString s)
      | Returns (None, seen) \<Rightarrow> Returns RUndefined
      | Throws e \<Rightarrow> Throws e
      | Timeout \<Rightarrow> Timeout)"

text \<open>The body of the \<^verbatim>\<open>try\<close> block (lines 10-50).\<close>

definition try_stringify :: "nat \<Rightarrow> heap \<Rightarrow> jsval \<Rightarrow> jsret outcome" where
  "try_stringify fuel h v =
     (case special_text h v of
        Some (Returns s) \<Rightarrow> Returns (RString s)
      | Some (Throws e) \<Rightarrow> Throws e
      | Some Timeout \<Rightarrow> Timeout
      | None \<Rightarrow>
          if v = VUndefined then Returns (RString ''undefined'')
          else JSON_stringify fuel h v)"

text \<open>
  The whole function: the result, and the errors reported with
  \<^verbatim>\<open>console.warn\<close>. The \<^verbatim>\<open>catch\<close> block (lines 52-56) warns and returns
  \<^verbatim>\<open>String(value)\<close>; what \<^verbatim>\<open>String\<close> throws there is thrown to the caller.
\<close>

definition safeStringify :: "nat \<Rightarrow> heap \<Rightarrow> jsval \<Rightarrow> jsret outcome \<times> error list" where
  "safeStringify fuel h v =
     (case try_stringify fuel h v of
        Throws err \<Rightarrow>
          (case to_text fuel h [] v of
             Returns s \<Rightarrow> (Returns (RString s), [err])
           | Throws e \<Rightarrow> (Throws e, [err])
           | Timeout \<Rightarrow> (Timeout, [err]))
      | r \<Rightarrow> (r, []))"

section \<open>parseContent\<close>

subsection \<open>Host operations on values\<close>

text \<open>
  \<^verbatim>\<open>String(v)\<close>, which \<^verbatim>\<open>JSON.parse\<close> applies to an argument that is not a
  string and a property access applies to a key.
\<close>

fun to_string :: "jv \<Rightarrow> string" where
  "to_string JUndef = ''undefined''"
| "to_string JNull = ''null''"
| "to_string (JBool b) = (if b then ''true'' else ''false'')"
| "to_string (JNum i) = show_int i"
| "to_string (JStr s) = s"
| "to_string (JArr xs) =
     join (map (\<lambda>x. if x = JUndef \<or> x = JNull then [] else to_string x) xs)"
| "to_string (JObj kvs) = ''[object Object]''"

text \<open>
  The values on which that conversion (and the conversion that \<^verbatim>\<open>+\<close> applies
  to an operand) throws a TypeError instead: an object with an own member
  \<^verbatim>\<open>toString\<close>, which is data and not callable here, so that neither it nor
  \<^verbatim>\<open>valueOf\<close> gives a primitive value; and an array with such an element, which
  \<^verbatim>\<open>join\<close> converts.
\<close>

fun unconvertible :: "jv \<Rightarrow> bool" where
  "unconvertible (JArr xs) = (\<exists>x \<in> set xs. unconvertible x)"
| "unconvertible (JObj kvs) = (''toString'' \<in> set (map fst kvs))"
| "unconvertible v = False"

fun truthy :: "jv \<Rightarrow> bool" where
  "truthy JUndef = False"
| "truthy JNull = False"
| "truthy (JBool b) = b"
| "truthy (JNum i) = (i \<noteq> 0)"
| "truthy (JStr s) = (s \<noteq> [])"
| "truthy (JArr xs) = True"
| "truthy (JObj kvs) = True"

subsection \<open>JSON.parse\<close>

text \<open>
  A recursive-descent parser for the JSON grammar, on 8-bit characters. Two parts of the
  grammar are outside the modelled fragment and are rejected here: a number with a
  fraction or an exponent, and the escape \<^verbatim>\<open>\u\<close>. A repeated key keeps its first
  position and its last value; the engine's reordering of integer-like keys is not
  modelled. Fuel is consumed by every value and every list item; twice the length of
  the text (and two more) is enough for any text, in that more fuel gives the same
  result (lemma \<open>JSON_parse_fuel\<close>).
\<close>

definition is_ws :: "char \<Rightarrow> bool" where
  "is_ws c = (c = CHR '' '' \<or> c = CHR 0x09 \<or> c = CHR 0x0A \<or> c = CHR 0x0D)"

fun skip_ws :: "string \<Rightarrow> string" where
  "skip_ws [] = []"
| "skip_ws (c # cs) = (if is_ws c then skip_ws cs else c # cs)"

definition is_digit :: "char \<Rightarrow> bool" where
  "is_digit c = (48 \<le> (of_char c :: nat) \<and> (of_char c :: nat) \<le> 57)"

definition digits_value :: "string \<Rightarrow> nat" where
  "digits_value ds = foldl (\<lambda>acc c. 10 * acc + (of_char c - 48)) 0 ds"

definition parse_number :: "string \<Rightarrow> (int \<times> string) option" where
  "parse_number s =
     (let neg = (case s of c # cs \<Rightarrow> c = CHR ''-'' | [] \<Rightarrow> False);
          s1 = (if neg then tl s else s);
          ds = takeWhile is_digit s1;
          rest = dropWhile is_digit s1
      in if ds = [] then None
         else if 1 < length ds \<and> hd ds = CHR ''0'' then None
         else if rest \<noteq> [] \<and> hd rest \<in> {CHR ''.'', CHR ''e'', CHR ''E''} then None
         else Some ((if neg then - int (digits_value ds) else int (digits_value ds)), rest))"

definition unescape :: "char \<Rightarrow> char option" where
  "unescape e =
     (if e = dq then Some dq
      else if e = bsl then Some bsl
      else if e = CHR ''/'' then Some (CHR ''/'')
      else if e = CHR ''b'' then Some (CHR 0x08)
      else if e = CHR ''f'' then Some (CHR 0x0C)
      else if e = CHR ''n'' then Some (CHR 0x0A)
      else if e = CHR ''r'' then Some (CHR 0x0D)
      else if e = CHR ''t'' then Some (CHR 0x09)
      else None)"

text \<open>The characters of a string literal, after its opening quote.\<close>

fun parse_chars :: "string \<Rightarrow> (string \<times> string) option" where
  "parse_chars [] = None"
| "parse_chars (c # cs) =
     (if c = dq then Some ([], cs)
      else if c = bsl then
        (case cs of
           [] \<Rightarrow> None
         | e # r \<Rightarrow>
             (case unescape e of
                None \<Rightarrow> None
              | Some ch \<Rightarrow>
                  (case parse_chars r of
                     None \<Rightarrow> None
                   | Some (str, rest) \<Rightarrow> Some (ch # str, rest))))
      else if of_char c < (32 :: nat) then None
      else (case parse_chars cs of
              None \<Rightarrow> None
            | Some (str, rest) \<Rightarrow> Some (c # str, rest)))"

fun put_member :: "string \<Rightarrow> jv \<Rightarrow> (string \<times> jv) list \<Rightarrow> (string \<times> jv) list" where
  "put_member k v [] = [(k, v)]"
| "put_member k v ((k', v') # kvs) =
     (if k = k' then (k, v) # kvs else (k', v') # put_member k v kvs)"

fun parse_value :: "nat \<Rightarrow> string \<Rightarrow> (jv \<times> string) option"
and parse_elements :: "nat \<Rightarrow> jv list \<Rightarrow> string \<Rightarrow> (jv list \<times> string) option"
and parse_members :: "nat \<Rightarrow> (string \<times> jv) list \<Rightarrow> string \<Rightarrow> ((string \<times> jv) list \<times> string) option"
where
  "parse_value 0 s = None"
| "parse_value (Suc n) s =
     (case s of
        [] \<Rightarrow> None
      | c # cs \<Rightarrow>
          if c = CHR ''{'' then
            (case skip_ws cs of
               [] \<Rightarrow> None
             | d # r \<Rightarrow>
                 if d = CHR ''}'' then Some (JObj [], r)
                 else (case parse_members n [] (d # r) of
                         None \<Rightarrow> None
                       | Some (kvs, rest) \<Rightarrow> Some (JObj kvs, rest)))
          else if c = CHR ''['' then
            (case skip_ws cs of
               [] \<Rightarrow> None
             | d # r \<Rightarrow>
                 if d = CHR '']'' then Some (JArr [], r)
                 else (case parse_elements n [] (d # r) of
                         None \<Rightarrow> None
                       | Some (xs, rest) \<Rightarrow> Some (JArr xs, rest)))
          else if c = dq then
            (case parse_chars cs of
               None \<Rightarrow> None
             | Some (str, rest) \<Rightarrow> Some (JStr str, rest))
          else if prefix ''true'' s then Some (JBool True, drop 4 s)
          else if prefix ''false'' s then Some (JBool False, drop 5 s)
          else if prefix ''null'' s then Some (JNull, drop 4 s)
          else (case parse_number s of
                  None \<Rightarrow> None
                | Some (i, rest) \<Rightarrow> Some (JNum i, rest)))"
| "parse_elements 0 acc s = None"
| "parse_elements (Suc n) acc s =
     (case parse_value n s of
        None \<Rightarrow> None
      | Some (x, rest) \<Rightarrow>
          (case skip_ws rest of
             [] \<Rightarrow> None
           | d # r \<Rightarrow>
               if d = CHR '']'' then Some (acc @ [x], r)
               else if d = CHR '','' then parse_elements n (acc @ [x]) (skip_ws r)
               else None))"
| "parse_members 0 acc s = None"
| "parse_members (Suc n) acc s =
     (case s of
        [] \<Rightarrow> None
      | q # cs \<Rightarrow>
          if q \<noteq> dq then None
          else (case parse_chars cs of
                  None \<Rightarrow> None
                | Some (k, rest) \<Rightarrow>
                    (case skip_ws rest of
                       [] \<Rightarrow> None
                     | colon # r \<Rightarrow>
                         if colon \<noteq> CHR '':'' then None
                         else (case parse_value n (skip_ws r) of
                                 None \<Rightarrow> None
                               | Some (x, rest') \<Rightarrow>
                                   (case skip_ws rest' of
                                      [] \<Rightarrow> None
                                    | d # r' \<Rightarrow>
                                        if d = CHR ''}'' then Some (put_member k x acc, r')
                                        else if d = CHR '','' then
                                          parse_members n (put_member k x acc) (skip_ws r')
                                        else None)))))"

definition JSON_parse :: "string \<Rightarrow> error + jv" where
  "JSON_parse s =
     (case parse_value (2 * length s + 2) (skip_ws s) of
        None \<Rightarrow> Inl SyntaxError
      | Some (v, rest) \<Rightarrow> if skip_ws rest = [] then Inr v else Inl SyntaxError)"

subsection \<open>Rules, rule tables and callbacks\<close>

text \<open>
  A caller-supplied function returns a value or throws, and has no other effect. A rule
  object has a predicate \<^verbatim>\<open>rule\<close> and a transform \<^verbatim>\<open>parse\<close>, which is
  one function or an array of functions. Both fields are read and called inside the \<^verbatim>\<open>try\<close> block of the
  loop, so a list entry that is not an object, a predicate that is not callable and a
  transform that is neither callable nor an array all behave as a function that throws
  a TypeError, and are represented so.
\<close>

type_synonym fn = "jv \<Rightarrow> error + jv"

datatype transform = Single fn | Pipeline "fn list"

record ruleObj =
  rule :: fn
  parse :: transform

text \<open>
  An entry of the caller's \<^verbatim>\<open>parsers\<close> object: an array, a function, or anything
  else. The object is the list of its own keys with their entries, in the order of
  \<^verbatim>\<open>Object.keys\<close>. (The argument is an object here; \<^verbatim>\<open>null\<close> in its place
  would make \<^verbatim>\<open>Object.keys\<close> throw.)
\<close>

datatype parser_entry = RuleArray "ruleObj list" | ParseFunction fn | OtherEntry

type_synonym parsers = "(string \<times> parser_entry) list"

text \<open>
  The response: \<open>None\<close> is a falsy argument; otherwise the values of its properties
  \<^verbatim>\<open>type\<close> and \<^verbatim>\<open>body\<close> (\<^verbatim>\<open>undefined\<close> when absent). Both are
  data properties that hold plain data: an accessor that throws is outside the model.
\<close>

record response =
  rtype :: jv
  body :: jv

text \<open>
  A callback is called with a list of arguments, each a value or an error object; it
  returns (\<open>None\<close>) or throws. \<open>None\<close> for the parameter \<^verbatim>\<open>callback\<close> is any
  argument that is falsy or not a function.
\<close>

datatype cbarg = ArgValue jv | ArgError error

type_synonym callback = "cbarg list \<Rightarrow> error option"

text \<open>
  What a call leaves behind: what it returned or threw, the argument lists of the calls
  it made to the callback, and the errors it reported with \<^verbatim>\<open>console.warn\<close>.
\<close>

record run =
  result :: "error + jv"
  calls :: "cbarg list list"
  warnings :: "error list"

subsection \<open>The rule table (lines 25-48)\<close>

text \<open>
  The arrays of rule objects live in a store and are mutated in place by
  \<^verbatim>\<open>unshift\<close>; a table maps its own keys to the addresses of their arrays. The
  store is threaded through the calls, so that what one call leaves in it is there
  when the next call starts.
\<close>

type_synonym store = "ruleObj list list"

type_synonym table = "(string \<times> addr) list"

definition fetch :: "store \<Rightarrow> addr \<Rightarrow> ruleObj list" where
  "fetch st a = (if a < length st then st ! a else [])"

definition always :: fn where
  "always = (\<lambda>content. Inr (JBool True))"

definition json_default :: ruleObj where
  "json_default =
     \<lparr>rule = always,
      parse = Single (\<lambda>content. if unconvertible content then Inl TypeError
                               else JSON_parse (to_string content))\<rparr>"

definition identity_default :: ruleObj where
  "identity_default = \<lparr>rule = always, parse = Single (\<lambda>content. Inr content)\<rparr>"

text \<open>The object literal of lines 25-29: three fresh arrays.\<close>

definition defaultParsers :: "store \<Rightarrow> table \<times> store" where
  "defaultParsers st =
     ([(''json'', length st), (''html'', length st + 1), (''text'', length st + 2)],
      st @ [[json_default], [identity_default], [identity_default]])"

text \<open>
  The table is a plain object, so a key that is not its own is looked up in
  \<^verbatim>\<open>Object.prototype\<close>. For an inherited member, its \<^verbatim>\<open>length\<close>: the arity of
  the inherited function, or nothing for \<^verbatim>\<open>__proto__\<close>.
\<close>

definition object_prototype :: "string \<Rightarrow> nat option option" where
  "object_prototype k =
     (if k \<in> {''toString'', ''valueOf'', ''toLocaleString''} then Some (Some 0)
      else if k \<in> {''constructor'', ''hasOwnProperty'', ''isPrototypeOf'',
                    ''propertyIsEnumerable'', ''__lookupGetter__'', ''__lookupSetter__''}
        then Some (Some 1)
      else if k \<in> {''__defineGetter__'', ''__defineSetter__''} then Some (Some 2)
      else if k = ''__proto__'' then Some None
      else None)"

datatype slot = OwnArray addr | Inherited "nat option" | Missing

definition lookup_slot :: "table \<Rightarrow> string \<Rightarrow> slot" where
  "lookup_slot tbl k =
     (case map_of tbl k of
        Some a \<Rightarrow> OwnArray a
      | None \<Rightarrow> (case object_prototype k of Some len \<Rightarrow> Inherited len | None \<Rightarrow> Missing))"

text \<open>
  One round of the \<^verbatim>\<open>forEach\<close> (lines 36-46). Calling \<^verbatim>\<open>unshift\<close> on an
  inherited member throws a TypeError, which nothing catches.
\<close>

definition unshift :: "store \<Rightarrow> slot \<Rightarrow> ruleObj list \<Rightarrow> error + store" where
  "unshift st sl new =
     (case sl of
        OwnArray a \<Rightarrow> Inr (st[a := new @ fetch st a])
      | _ \<Rightarrow> Inl TypeError)"

definition merge_entry :: "string \<times> parser_entry \<Rightarrow> table \<times> store \<Rightarrow> error + table \<times> store" where
  "merge_entry p ts =
     (let k = fst p; tbl = fst ts; st = snd ts;
          tbl' = (if lookup_slot tbl k = Missing then tbl @ [(k, length st)] else tbl);
          st' = (if lookup_slot tbl k = Missing then st @ [[]] else st)
      in case snd p of
           RuleArray rs \<Rightarrow>
             (case unshift st' (lookup_slot tbl' k) rs of
                Inl e \<Rightarrow> Inl e | Inr st'' \<Rightarrow> Inr (tbl', st''))
         | ParseFunction f \<Rightarrow>
             (case unshift st' (lookup_slot tbl' k) [\<lparr>rule = always, parse = Single f\<rparr>] of
                Inl e \<Rightarrow> Inl e | Inr st'' \<Rightarrow> Inr (tbl', st''))
         | OtherEntry \<Rightarrow> Inr (tbl', st'))"

fun merge_all :: "parsers \<Rightarrow> table \<times> store \<Rightarrow> error + table \<times> store" where
  "merge_all [] ts = Inr ts"
| "merge_all (p # ps) ts =
     (case merge_entry p ts of Inl e \<Rightarrow> Inl e | Inr ts' \<Rightarrow> merge_all ps ts')"

text \<open>
  Lines 25-48: the default table, its shallow copy \<^verbatim>\<open>mergedParsers\<close> (the same
  arrays), the merge, and \<^verbatim>\<open>mergedParsers[type] || []\<close>. The result is the rule
  list of the kind, or the \<^verbatim>\<open>length\<close> of an inherited member.
\<close>

datatype type_rules = RuleList "ruleObj list" | Member "nat option"

definition effective_rules :: "store \<Rightarrow> parsers \<Rightarrow> string \<Rightarrow> (error + type_rules) \<times> store" where
  "effective_rules st ps k =
     (let dflt = defaultParsers st;
          mergedParsers = fst dflt
      in case merge_all ps (mergedParsers, snd dflt) of
           Inl e \<Rightarrow> (Inl e, snd dflt)
         | Inr (tbl, st') \<Rightarrow>
             (case lookup_slot tbl k of
                OwnArray a \<Rightarrow> (Inr (RuleList (fetch st' a)), st')
              | Inherited len \<Rightarrow> (Inr (Member len), st')
              | Missing \<Rightarrow> (Inr (RuleList []), st')))"

subsection \<open>Applying the rules (lines 56-81)\<close>

text \<open>The transform of a rule: one call, or \<^verbatim>\<open>reduce\<close> from the left.\<close>

fun reduce :: "fn list \<Rightarrow> jv \<Rightarrow> error + jv" where
  "reduce [] currentContent = Inr currentContent"
| "reduce (parser # rest) currentContent =
     (case parser currentContent of Inl e \<Rightarrow> Inl e | Inr c \<Rightarrow> reduce rest c)"

definition apply_parse :: "transform \<Rightarrow> jv \<Rightarrow> error + jv" where
  "apply_parse t content = (case t of Single f \<Rightarrow> f content | Pipeline fs \<Rightarrow> reduce fs content)"

text \<open>
  The body of the \<^verbatim>\<open>try\<close> block (lines 61-72): \<open>Inr (Some r)\<close> when the rule
  matched and its transform returned \<open>r\<close> (the \<^verbatim>\<open>break\<close>), \<open>Inr None\<close> when the
  predicate returned a falsy value, \<open>Inl e\<close> when the predicate or the transform threw.
\<close>

definition try_rule :: "ruleObj \<Rightarrow> jv \<Rightarrow> error + jv option" where
  "try_rule ruleObj content =
     (case rule ruleObj content of
        Inl e \<Rightarrow> Inl e
      | Inr b \<Rightarrow>
          if truthy b then
            (case apply_parse (parse ruleObj) content of Inl e \<Rightarrow> Inl e | Inr r \<Rightarrow> Inr (Some r))
          else Inr None)"

text \<open>
  The \<^verbatim>\<open>catch\<close> block (lines 73-75) evaluates
  \<^verbatim>\<open>'Failed to parse content: ' + err.message\<close>, which itself throws: a TypeError
  when the thrown value is \<^verbatim>\<open>null\<close> or \<^verbatim>\<open>undefined\<close> (the property
  access) or when its \<^verbatim>\<open>message\<close> has no primitive value (the concatenation),
  and whatever reading or converting the \<^verbatim>\<open>message\<close> of any other object
  throws. \<open>message_error\<close> is that exception, if there is one.
\<close>

definition message_error :: "error \<Rightarrow> error option" where
  "message_error err =
     (case err of
        ThrownValue v \<Rightarrow>
          (case v of
             JNull \<Rightarrow> Some TypeError
           | JUndef \<Rightarrow> Some TypeError
           | JObj kvs \<Rightarrow>
               (case map_of kvs ''message'' of
                  Some m \<Rightarrow> if unconvertible m then Some TypeError else None
                | None \<Rightarrow> None)
           | _ \<Rightarrow> None)
      | Unreadable e \<Rightarrow> Some e
      | _ \<Rightarrow> None)"

definition has_message :: "error \<Rightarrow> bool" where
  "has_message err = (message_error err = None)"

text \<open>
  The loop over \<^verbatim>\<open>typeRules\<close>: the value of \<^verbatim>\<open>result\<close> if a rule was processed,
  and the warnings; or the error thrown out of the loop.
\<close>

fun run_rules :: "ruleObj list \<Rightarrow> jv \<Rightarrow> error list \<Rightarrow> (error + jv option) \<times> error list" where
  "run_rules [] content warned = (Inr None, warned)"
| "run_rules (ruleObj # rest) content warned =
     (case try_rule ruleObj content of
        Inr (Some r) \<Rightarrow> (Inr (Some r), warned)
      | Inr None \<Rightarrow> run_rules rest content warned
      | Inl err \<Rightarrow>
          (case message_error err of
             None \<Rightarrow> run_rules rest content (warned @ [err])
           | Some e \<Rightarrow> (Inl e, warned)))"

subsection \<open>parseContent (lines 1-89)\<close>

text \<open>\<^verbatim>\<open>if (callback && typeof callback === 'function') callback(...)\<close>.\<close>

definition invoke :: "callback option \<Rightarrow> cbarg list \<Rightarrow> error option \<times> cbarg list list" where
  "invoke callback args =
     (case callback of None \<Rightarrow> (None, []) | Some cb \<Rightarrow> (cb args, [args]))"

text \<open>\<^verbatim>\<open>response.type || 'text'\<close>, and the key it is as a property name.\<close>

definition type_of :: "response \<Rightarrow> jv" where
  "type_of response = (if truthy (rtype response) then rtype response else JStr ''text'')"

text \<open>The \<^verbatim>\<open>try\<close> block of lines 8-15.\<close>

definition get_content :: "jv \<Rightarrow> jv \<Rightarrow> error + jv" where
  "get_content ty b =
     (if ty = JStr ''json'' then (case b of JStr s \<Rightarrow> JSON_parse s | _ \<Rightarrow> Inr b)
      else if ty = JStr ''html'' then Inr b
      else Inr b)"

text \<open>Returning or throwing after an optional call of the callback, whose exception wins.\<close>

definition finish :: "callback option \<Rightarrow> cbarg list \<Rightarrow> error + jv \<Rightarrow> error list \<Rightarrow> run" where
  "finish callback args res warned =
     (case invoke callback args of
        (Some e, cs) \<Rightarrow> \<lparr>result = Inl e, calls = cs, warnings = warned\<rparr>
      | (None, cs) \<Rightarrow> \<lparr>result = res, calls = cs, warnings = warned\<rparr>)"

text \<open>
  Lines 48-89, once the content and \<^verbatim>\<open>typeRules\<close> are known. An inherited
  member of length 0 takes the early return of line 49; any other inherited member is
  not iterable, and the \<^verbatim>\<open>for ... of\<close> throws a TypeError.
\<close>

definition apply_type_rules :: "type_rules \<Rightarrow> jv \<Rightarrow> callback option \<Rightarrow> run" where
  "apply_type_rules tr content callback =
     (case tr of
        Member len \<Rightarrow>
          if len = Some 0 then finish callback [ArgValue content] (Inr content) []
          else \<lparr>result = Inl TypeError, calls = [], warnings = []\<rparr>
      | RuleList typeRules \<Rightarrow>
          if length typeRules = 0 then finish callback [ArgValue content] (Inr content) []
          else (case run_rules typeRules content [] of
                  (Inl e, warned) \<Rightarrow> \<lparr>result = Inl e, calls = [], warnings = warned\<rparr>
                | (Inr processed, warned) \<Rightarrow>
                    (let res = (case processed of Some x \<Rightarrow> x | None \<Rightarrow> content)
                     in finish callback [ArgValue res] (Inr res) warned)))"

text \<open>
  The whole function. Line 48 converts the kind to a property key, once the merge is
  done; for a kind without a primitive value that conversion throws a TypeError.
\<close>

definition parseContent ::
  "store \<Rightarrow> response option \<Rightarrow> parsers \<Rightarrow> callback option \<Rightarrow> run \<times> store" where
  "parseContent st response ps callback =
     (case response of
        None \<Rightarrow> (\<lparr>result = Inl ResponseRequired, calls = [], warnings = []\<rparr>, st)
      | Some r \<Rightarrow>
          (case get_content (type_of r) (body r) of
             Inl err \<Rightarrow>
               (finish callback [ArgValue JNull, ArgError (ParseFailed err)]
                  (Inl (ParseFailed err)) [], st)
           | Inr content \<Rightarrow>
               (case effective_rules st ps (to_string (type_of r)) of
                  (Inl e, st') \<Rightarrow> (\<lparr>result = Inl e, calls = [], warnings = []\<rparr>, st')
                | (Inr tr, st') \<Rightarrow>
                    if unconvertible (type_of r)
                    then (\<lparr>result = Inl TypeError, calls = [], warnings = []\<rparr>, st')
                    else (apply_type_rules tr content callback, st'))))"

text \<open>
  The call with a \<^verbatim>\<open>parsers\<close> argument that may be \<^verbatim>\<open>null\<close> (\<open>None\<close>):
  \<^verbatim>\<open>Object.keys(null)\<close> on line 36 throws a TypeError, after the check of the
  response, the extraction of the content and the allocation of the default table.
  (\<^verbatim>\<open>undefined\<close> takes the default \<^verbatim>\<open>{}\<close> of the parameter, and a primitive
  has the own keys of its wrapper; both are \<open>Some\<close> of a list.)
\<close>

definition parseContent_nullable ::
  "store \<Rightarrow> response option \<Rightarrow> parsers option \<Rightarrow> callback option \<Rightarrow> run \<times> store" where
  "parseContent_nullable st response parsers callback =
     (case parsers of
        Some ps \<Rightarrow> parseContent st response ps callback
      | None \<Rightarrow>
          (case response of
             None \<Rightarrow> (\<lparr>result = Inl ResponseRequired, calls = [], warnings = []\<rparr>, st)
           | Some r \<Rightarrow>
               (case get_content (type_of r) (body r) of
                  Inl err \<Rightarrow>
                    (finish callback [ArgValue JNull, ArgError (ParseFailed err)]
                       (Inl (ParseFailed err)) [], st)
                | Inr content \<Rightarrow>
                    (\<lparr>result = Inl TypeError, calls = [], warnings = []\<rparr>,
                     snd (defaultParsers st)))))"

text \<open>
  A sequence of calls, each given as its arguments: every call starts on the store that
  the calls before it left.
\<close>

type_synonym call_args = "response option \<times> parsers \<times> callback option"

fun run_calls :: "store \<Rightarrow> call_args list \<Rightarrow> run list" where
  "run_calls st [] = []"
| "run_calls st (c # cs) =
     (case parseContent st (fst c) (fst (snd c)) (snd (snd c)) of
        (r, st') \<Rightarrow> r # run_calls st' cs)"

section \<open>The specification's notions\<close>

subsection \<open>Rule order\<close>

text \<open>
  The rules that the caller supplies for a kind, in the order in which the specification
  has them evaluated: the rule list of the kind's entry, or the single always-matching
  rule that wraps a bare transform function. (An object has one entry per key; for a
  list with a repeated key, a later entry goes in front, as a later \<^verbatim>\<open>unshift\<close>
  would put it.) Then the built-in default rule of the kind, one per known kind.
\<close>

definition entry_rules :: "parser_entry \<Rightarrow> ruleObj list" where
  "entry_rules e =
     (case e of
        RuleArray rs \<Rightarrow> rs
      | ParseFunction f \<Rightarrow> [\<lparr>rule = always, parse = Single f\<rparr>]
      | OtherEntry \<Rightarrow> [])"

fun custom_rules :: "parsers \<Rightarrow> string \<Rightarrow> ruleObj list" where
  "custom_rules [] k = []"
| "custom_rules (p # ps) k = custom_rules ps k @ (if fst p = k then entry_rules (snd p) else [])"

definition default_rules :: "string \<Rightarrow> ruleObj list" where
  "default_rules k =
     (if k = ''json'' then [json_default]
      else if k = ''html'' \<or> k = ''text'' then [identity_default]
      else [])"

text \<open>A key that the rule table finds in \<^verbatim>\<open>Object.prototype\<close>.\<close>

definition inherited_key :: "string \<Rightarrow> bool" where
  "inherited_key k = (object_prototype k \<noteq> None)"

text \<open>A predicate that does not return a truthy value: it returns a falsy one or throws.\<close>

definition no_match :: "ruleObj \<Rightarrow> jv \<Rightarrow> bool" where
  "no_match ro content = (case rule ro content of Inl err \<Rightarrow> True | Inr b \<Rightarrow> \<not> truthy b)"

definition matches :: "ruleObj \<Rightarrow> jv \<Rightarrow> bool" where
  "matches ro content = (case rule ro content of Inl err \<Rightarrow> False | Inr b \<Rightarrow> truthy b)"

text \<open>
  Rule evaluation as the specification has it (section 4.2, steps 3 and 4): the rules
  are tried in order up to the first one that matches and whose transform returns.
  \<open>first_result\<close> is what that rule produced, if there is one; \<open>thrown\<close> is what
  the predicates and transforms of the rules tried before it threw, in order.
\<close>

fun first_result :: "ruleObj list \<Rightarrow> jv \<Rightarrow> jv option" where
  "first_result [] content = None"
| "first_result (ro # rs) content =
     (case try_rule ro content of
        Inr (Some x) \<Rightarrow> Some x
      | _ \<Rightarrow> first_result rs content)"

fun thrown :: "ruleObj list \<Rightarrow> jv \<Rightarrow> error list" where
  "thrown [] content = []"
| "thrown (ro # rs) content =
     (case try_rule ro content of
        Inl err \<Rightarrow> err # thrown rs content
      | Inr (Some x) \<Rightarrow> []
      | Inr None \<Rightarrow> thrown rs content)"

text \<open>The value of the call (step 4): the result of that rule, or the content unchanged.\<close>

definition resolved :: "ruleObj list \<Rightarrow> jv \<Rightarrow> jv" where
  "resolved rs content = (case first_result rs content of Some x \<Rightarrow> x | None \<Rightarrow> content)"

subsection \<open>The rule table, as the specification has it\<close>

text \<open>
  The merge fails when the caller has an array or a function under a key that the table
  inherits. Otherwise the rule list of a kind is the caller's rules for it followed by
  the defaults, and an inherited kind gives the inherited member.
\<close>

definition merge_fails :: "parsers \<Rightarrow> bool" where
  "merge_fails ps = (\<exists>p \<in> set ps. inherited_key (fst p) \<and> snd p \<noteq> OtherEntry)"

definition rule_table :: "parsers \<Rightarrow> string \<Rightarrow> error + type_rules" where
  "rule_table ps k =
     (if merge_fails ps then Inl TypeError
      else (case object_prototype k of
              Some len \<Rightarrow> Inr (Member len)
            | None \<Rightarrow> Inr (RuleList (custom_rules ps k @ default_rules k))))"

text \<open>
  A kind whose rule list the loop cannot iterate: an inherited member of the table other
  than a function without parameters, whose \<^verbatim>\<open>length\<close> of 0 takes the early
  return of line 49.
\<close>

definition uniterable_kind :: "string \<Rightarrow> bool" where
  "uniterable_kind k =
     (case object_prototype k of Some len \<Rightarrow> len \<noteq> Some 0 | None \<Rightarrow> False)"

text \<open>
  The invariant of the merge, for a call that started on a store of \<open>n\<close> cells: the
  table's arrays are distinct cells allocated by this call, and no key of the table is
  an inherited one. \<open>rules_at\<close> reads the rule list of a key through the table.
\<close>

definition tbl_ok :: "nat \<Rightarrow> table \<times> store \<Rightarrow> bool" where
  "tbl_ok n ts =
     (n \<le> length (snd ts) \<and> distinct (map snd (fst ts)) \<and>
      (\<forall>ka \<in> set (fst ts). n \<le> snd ka \<and> snd ka < length (snd ts) \<and> \<not> inherited_key (fst ka)))"

definition rules_at :: "table \<times> store \<Rightarrow> string \<Rightarrow> ruleObj list" where
  "rules_at ts k = (case map_of (fst ts) k of Some a \<Rightarrow> fetch (snd ts) a | None \<Rightarrow> [])"

subsection \<open>Standard structural encoding\<close>

text \<open>
  The structural text encoding that the specification compares \<^verbatim>\<open>safeStringify\<close>
  with: standard JSON encoding, without a visited set, in which a timestamp, a compiled
  pattern and a callable are replaced by their texts at every depth. The flag says
  whether a nested absent-marker is replaced by the text \<^verbatim>\<open>undefined\<close> as well
  (the specification's words) or is left to the standard encoding (\<^verbatim>\<open>null\<close> in a
  sequence, no member in a mapping).
\<close>

fun std_property :: "bool \<Rightarrow> nat \<Rightarrow> heap \<Rightarrow> jsval \<Rightarrow> string option outcome"
and std_elements :: "bool \<Rightarrow> nat \<Rightarrow> heap \<Rightarrow> jsval list \<Rightarrow> string list outcome"
and std_members :: "bool \<Rightarrow> nat \<Rightarrow> heap \<Rightarrow> (string \<times> jsval) list \<Rightarrow> string list outcome"
where
  "std_property sub 0 h v = Timeout"
| "std_property sub (Suc n) h v =
     (case v of
        VUndefined \<Rightarrow> Returns (if sub then Some (quote_json ''undefined'') else None)
      | VNull \<Rightarrow> Returns (Some ''null'')
      | VBool b \<Rightarrow> Returns (Some (if b then ''true'' else ''false''))
      | VNum i \<Rightarrow> Returns (Some (show_int i))
      | VBigInt i \<Rightarrow> Throws TypeError
      | VStr s \<Rightarrow> Returns (Some (quote_json s))
      | VSymbol d \<Rightarrow> Returns None
      | VRef a \<Rightarrow>
          (case deref h a of
             None \<Rightarrow> Throws TypeError
           | Some (HDate (ValidDate utc loc)) \<Rightarrow> Returns (Some (quote_json utc))
           | Some (HDate InvalidDate) \<Rightarrow> Returns (Some ''null'')
           | Some (HRegExp src) \<Rightarrow> Returns (Some (quote_json src))
           | Some (HFunction src) \<Rightarrow> Returns (Some (quote_json src))
           | Some (HArray xs) \<Rightarrow>
               (case std_elements sub n h xs of
                  Returns parts \<Rightarrow> Returns (Some (array_text parts))
                | Throws e \<Rightarrow> Throws e
                | Timeout \<Rightarrow> Timeout)
           | Some (HObject kvs) \<Rightarrow>
               (case std_members sub n h kvs of
                  Returns members \<Rightarrow> Returns (Some (object_text members))
                | Throws e \<Rightarrow> Throws e
                | Timeout \<Rightarrow> Timeout)))"
| "std_elements sub n h [] = Returns []"
| "std_elements sub n h (x # xs) =
     (case std_property sub n h x of
        Throws e \<Rightarrow> Throws e
      | Timeout \<Rightarrow> Timeout
      | Returns r \<Rightarrow>
          (case std_elements sub n h xs of
             Throws e \<Rightarrow> Throws e
           | Timeout \<Rightarrow> Timeout
           | Returns parts \<Rightarrow> Returns (element_text r # parts)))"
| "std_members sub n h [] = Returns []"
| "std_members sub n h (kx # kvs) =
     (case std_property sub n h (snd kx) of
        Throws e \<Rightarrow> Throws e
      | Timeout \<Rightarrow> Timeout
      | Returns r \<Rightarrow>
          (case std_members sub n h kvs of
             Throws e \<Rightarrow> Throws e
           | Timeout \<Rightarrow> Timeout
           | Returns members \<Rightarrow> Returns (member_text (fst kx) r @ members)))"

text \<open>
  Serialization as the specification words it (section 4.1, steps 1, 2 and 5): the
  special kinds at top level, the structural encoding otherwise, and the plain-text
  coercion when the encoder rejects the value.
\<close>

definition spec_serialize :: "bool \<Rightarrow> nat \<Rightarrow> heap \<Rightarrow> jsval \<Rightarrow> jsret outcome" where
  "spec_serialize sub fuel h v =
     (case (case special_text h v of
              Some (Returns s) \<Rightarrow> Returns (RString s)
            | Some (Throws e) \<Rightarrow> Throws e
            | Some Timeout \<Rightarrow> Timeout
            | None \<Rightarrow>
                if v = VUndefined then Returns (RString ''undefined'')
                else (case std_property sub fuel h v of
                        Returns (Some s) \<Rightarrow> Returns (RString s)
                      | Returns None \<Rightarrow> Returns RUndefined
                      | Throws e \<Rightarrow> Throws e
                      | Timeout \<Rightarrow> Timeout)) of
        Throws err \<Rightarrow>
          (case to_text fuel h [] v of
             Returns s \<Rightarrow> Returns (RString s)
           | Throws e \<Rightarrow> Throws e
           | Timeout \<Rightarrow> Timeout)
      | r \<Rightarrow> r)"

subsection \<open>Acyclic and tree-shaped values\<close>

text \<open>
  The composites that a full unfolding of a value meets, in the order of the traversal
  and with repetition: every array, plain object and RegExp, which are the cells that
  the replacer records. \<open>None\<close> when the unfolding is deeper than the fuel, as the
  unfolding of a cyclic value is for every fuel. A value is acyclic within depth \<open>n\<close>
  when the unfolding ends, and tree-shaped when moreover no composite is met twice.
\<close>

fun visits :: "nat \<Rightarrow> heap \<Rightarrow> jsval \<Rightarrow> addr list option"
and visits_list :: "nat \<Rightarrow> heap \<Rightarrow> jsval list \<Rightarrow> addr list option"
where
  "visits 0 h v = None"
| "visits (Suc n) h v =
     (case v of
        VRef a \<Rightarrow>
          (case deref h a of
             None \<Rightarrow> Some [a]
           | Some (HArray xs) \<Rightarrow>
               (case visits_list n h xs of None \<Rightarrow> None | Some as \<Rightarrow> Some (a # as))
           | Some (HObject kvs) \<Rightarrow>
               (case visits_list n h (map snd kvs) of None \<Rightarrow> None | Some as \<Rightarrow> Some (a # as))
           | Some (HRegExp src) \<Rightarrow> Some [a]
           | Some other \<Rightarrow> Some [])
      | _ \<Rightarrow> Some [])"
| "visits_list n h [] = Some []"
| "visits_list n h (x # xs) =
     (case visits n h x of
        None \<Rightarrow> None
      | Some as \<Rightarrow> (case visits_list n h xs of None \<Rightarrow> None | Some bs \<Rightarrow> Some (as @ bs)))"

definition acyclic_within :: "nat \<Rightarrow> heap \<Rightarrow> jsval \<Rightarrow> bool" where
  "acyclic_within n h v = (visits n h v \<noteq> None)"

definition tree_shaped :: "nat \<Rightarrow> heap \<Rightarrow> jsval \<Rightarrow> bool" where
  "tree_shaped n h v = (case visits n h v of None \<Rightarrow> False | Some as \<Rightarrow> distinct as)"

text \<open>
  The unfolding of a value that stops at a cyclic edge, an edge that leads back to a
  composite on the path from the root: the composites it enters, in order and with
  repetition, and the number of cyclic edges it meets. It ends on every finite heap.
\<close>

fun walk :: "nat \<Rightarrow> heap \<Rightarrow> addr list \<Rightarrow> jsval \<Rightarrow> (addr list \<times> nat) option"
and walk_list :: "nat \<Rightarrow> heap \<Rightarrow> addr list \<Rightarrow> jsval list \<Rightarrow> (addr list \<times> nat) option"
where
  "walk 0 h path v = None"
| "walk (Suc n) h path v =
     (case v of
        VRef a \<Rightarrow>
          (case deref h a of
             None \<Rightarrow> Some ([a], 0)
           | Some (HArray xs) \<Rightarrow>
               if a \<in> set path then Some ([], 1)
               else (case walk_list n h (a # path) xs of
                       None \<Rightarrow> None
                     | Some (as, c) \<Rightarrow> Some (a # as, c))
           | Some (HObject kvs) \<Rightarrow>
               if a \<in> set path then Some ([], 1)
               else (case walk_list n h (a # path) (map snd kvs) of
                       None \<Rightarrow> None
                     | Some (as, c) \<Rightarrow> Some (a # as, c))
           | Some (HRegExp src) \<Rightarrow> Some ([a], 0)
           | Some other \<Rightarrow> Some ([], 0))
      | _ \<Rightarrow> Some ([], 0))"
| "walk_list n h path [] = Some ([], 0)"
| "walk_list n h path (x # xs) =
     (case walk n h path x of
        None \<Rightarrow> None
      | Some (as, c) \<Rightarrow>
          (case walk_list n h path xs of
             None \<Rightarrow> None
           | Some (bs, d) \<Rightarrow> Some (as @ bs, c + d)))"

definition is_composite :: "heap \<Rightarrow> addr \<Rightarrow> bool" where
  "is_composite h a =
     (case deref h a of Some (HArray xs) \<Rightarrow> True | Some (HObject kvs) \<Rightarrow> True | _ \<Rightarrow> False)"

subsection \<open>Occurrences of a text\<close>

text \<open>The number of positions of \<open>s\<close> at which \<open>p\<close> occurs.\<close>

fun occurrences :: "string \<Rightarrow> string \<Rightarrow> nat" where
  "occurrences p [] = (if p = [] then 1 else 0)"
| "occurrences p (c # cs) = (if prefix p (c # cs) then 1 else 0) + occurrences p cs"

text \<open>
  A member value that the structural encoder accepts and whose text does not hold the
  placeholder: no BigInt, no reference to a missing cell, and no occurrence of the
  placeholder in a string or in the text of a Date, a RegExp or a function. A composite
  is clean when its keys do not hold the placeholder and its members are clean.
\<close>

definition clean_val :: "heap \<Rightarrow> jsval \<Rightarrow> bool" where
  "clean_val h x =
     (case x of
        VBigInt i \<Rightarrow> False
      | VStr s \<Rightarrow> occurrences circular_placeholder s = 0
      | VRef a \<Rightarrow>
          (case deref h a of
             None \<Rightarrow> False
           | Some (HDate (ValidDate utc loc)) \<Rightarrow> occurrences circular_placeholder utc = 0
           | Some (HRegExp src) \<Rightarrow> occurrences circular_placeholder src = 0
           | Some (HFunction src) \<Rightarrow> occurrences circular_placeholder src = 0
           | Some other \<Rightarrow> True)
      | _ \<Rightarrow> True)"

definition clean_at :: "heap \<Rightarrow> addr \<Rightarrow> bool" where
  "clean_at h a =
     (case deref h a of
        Some (HArray xs) \<Rightarrow> (\<forall>x \<in> set xs. clean_val h x)
      | Some (HObject kvs) \<Rightarrow>
          (\<forall>kx \<in> set kvs. occurrences circular_placeholder (fst kx) = 0 \<and> clean_val h (snd kx))
      | Some other \<Rightarrow> True
      | None \<Rightarrow> False)"

text \<open>
  A piece of output that holds the placeholder \<open>c\<close> times wherever it stands: it is not
  empty, it does not start with the letter that follows the placeholder's bracket, and
  no occurrence runs from it into what follows.
\<close>

definition starts_ok :: "string \<Rightarrow> bool" where
  "starts_ok s = (case s of [] \<Rightarrow> True | c # cs \<Rightarrow> c \<noteq> CHR ''C'')"

definition chunk :: "string \<Rightarrow> nat \<Rightarrow> bool" where
  "chunk t c =
     (t \<noteq> [] \<and> starts_ok t \<and>
      (\<forall>rest. starts_ok rest \<longrightarrow>
         occurrences circular_placeholder (t @ rest) = c + occurrences circular_placeholder rest))"

subsection \<open>Sample inputs\<close>

text \<open>The text \<^verbatim>\<open>{"a":1}\<close>.\<close>

definition a1_text :: string where
  "a1_text = ''{'' @ [dq] @ ''a'' @ [dq] @ '':1}''"

text \<open>A transform that uppercases a string (\<^verbatim>\<open>(s) => s.toUpperCase()\<close>, on ASCII).\<close>

definition to_upper :: "char \<Rightarrow> char" where
  "to_upper c =
     (if 97 \<le> (of_char c :: nat) \<and> (of_char c :: nat) \<le> 122
      then char_of ((of_char c :: nat) - 32) else c)"

definition uppercase :: fn where
  "uppercase content =
     (case content of JStr s \<Rightarrow> Inr (JStr (map to_upper s)) | _ \<Rightarrow> Inl TypeError)"

text \<open>
  A two-cell heap: the array \<^verbatim>\<open>[o, o, undefined]\<close> with one empty object
  \<^verbatim>\<open>o\<close> referenced twice.
\<close>

definition shared_heap :: heap where
  "shared_heap = [HArray [VRef 1, VRef 1, VUndefined], HObject []]"

text \<open>
  The object \<^verbatim>\<open>v = {note: "[Circular Reference]"}\<close> with \<^verbatim>\<open>v.self = v\<close>.
\<close>

definition self_heap :: heap where
  "self_heap = [HObject [(''note'', VStr ''[Circular Reference]''), (''self'', VRef 0)]]"

text \<open>
  Two objects that reference each other, \<^verbatim>\<open>a = {b: b}\<close> and
  \<^verbatim>\<open>b = {a: a, list: [1, a]}\<close>.
\<close>

definition mutual_heap :: heap where
  "mutual_heap =
     [HObject [(''b'', VRef 1)],
      HObject [(''a'', VRef 0), (''list'', VRef 2)],
      HArray [VNum 1, VRef 0]]"

text \<open>
  The object \<^verbatim>\<open>v = {list: "[1]", re: /[a-z]/}\<close> with \<^verbatim>\<open>v.self = v\<close>:
  texts with an opening bracket, none of them the placeholder.
\<close>

definition bracket_heap :: heap where
  "bracket_heap =
     [HObject [(''list'', VStr ''[1]''), (''re'', VRef 1), (''self'', VRef 0)],
      HRegExp ''/[a-z]/'']"

text \<open>
  The example of the README: \<^verbatim>\<open>obj = {name: 'John'}\<close> with
  \<^verbatim>\<open>obj.self = obj\<close>.
\<close>

definition readme_heap :: heap where
  "readme_heap = [HObject [(''name'', VStr ''John''), (''self'', VRef 0)]]"

section \<open>Properties of safeStringify\<close>

subsection \<open>One step of the encoder\<close>

lemma replacer_primitive:
  "\<forall>a. v \<noteq> VRef a \<Longrightarrow> replacer h seen v = Returns (v, seen)"
  by (cases v) (simp_all add: replacer_def is_object_def special_text_def)

lemma toJSON_primitive: "\<forall>a. v \<noteq> VRef a \<Longrightarrow> toJSON h v = v"
  by (cases v) (simp_all add: toJSON_def)

lemma ser_property_primitive:
  assumes "\<forall>a. v \<noteq> VRef a"
  shows "ser_property (Suc n) h stack v seen
           = map_outcome (\<lambda>r. (r, seen)) (std_property False (Suc n) h v)"
  using assms by (cases v) (simp_all add: replacer_primitive toJSON_primitive)

lemma ser_property_dangling:
  assumes "deref h a = None" "a \<notin> seen"
  shows "ser_property (Suc n) h stack (VRef a) seen = Throws TypeError"
  using assms
  by (simp add: toJSON_def replacer_def is_object_def is_function_def special_text_def)

lemma replacer_composite:
  assumes "deref h a = Some (HArray xs) \<or> deref h a = Some (HObject kvs)"
  shows "toJSON h (VRef a) = VRef a"
    and "replacer h seen (VRef a)
           = (if a \<in> seen then Returns (VStr circular_placeholder, seen)
              else Returns (VRef a, insert a seen))"
  using assms
  by (auto simp: toJSON_def replacer_def is_object_def is_function_def special_text_def)

lemma ser_property_array:
  assumes "deref h a = Some (HArray xs)"
  shows "ser_property (Suc n) h stack (VRef a) seen
           = (if a \<in> seen then Returns (Some (quote_json circular_placeholder), seen)
              else if a \<in> set stack then Throws TypeError
              else map_outcome (\<lambda>p. (Some (array_text (fst p)), snd p))
                     (ser_elements n h (a # stack) xs (insert a seen)))"
proof -
  have c: "deref h a = Some (HArray xs) \<or> deref h a = Some (HObject [])" using assms by simp
  show ?thesis
    using assms
    by (cases "ser_elements n h (a # stack) xs (insert a seen)")
       (auto simp: replacer_composite[OF c])
qed

lemma ser_property_object:
  assumes "deref h a = Some (HObject kvs)"
  shows "ser_property (Suc n) h stack (VRef a) seen
           = (if a \<in> seen then Returns (Some (quote_json circular_placeholder), seen)
              else if a \<in> set stack then Throws TypeError
              else map_outcome (\<lambda>p. (Some (object_text (fst p)), snd p))
                     (ser_members n h (a # stack) kvs (insert a seen)))"
proof -
  have c: "deref h a = Some (HArray []) \<or> deref h a = Some (HObject kvs)" using assms by simp
  show ?thesis
    using assms
    by (cases "ser_members n h (a # stack) kvs (insert a seen)")
       (auto simp: replacer_composite[OF c])
qed

subsection \<open>Tree-shaped values: the visited set changes nothing\<close>

lemma ser_elements_tree:
  assumes P: "\<And>v as seen stack. visits n h v = Some as \<Longrightarrow> distinct as \<Longrightarrow> set as \<inter> seen = {}
                \<Longrightarrow> set stack \<subseteq> seen
                \<Longrightarrow> ser_property n h stack v seen
                      = map_outcome (\<lambda>r. (r, seen \<union> set as)) (std_property False n h v)"
  shows "visits_list n h xs = Some as \<Longrightarrow> distinct as \<Longrightarrow> set as \<inter> seen = {}
           \<Longrightarrow> set stack \<subseteq> seen
           \<Longrightarrow> ser_elements n h stack xs seen
                 = map_outcome (\<lambda>ps. (ps, seen \<union> set as)) (std_elements False n h xs)"
proof (induction xs arbitrary: as seen)
  case Nil
  then show ?case by simp
next
  case (Cons x xs)
  from Cons.prems(1) obtain as1 as2 where
    v: "visits n h x = Some as1" "visits_list n h xs = Some as2" "as = as1 @ as2"
    by (auto split: option.splits)
  with Cons.prems have d: "distinct as1" "distinct as2" "set as1 \<inter> set as2 = {}"
    "set as1 \<inter> seen = {}" "set as2 \<inter> (seen \<union> set as1) = {}"
    by auto
  have stack': "set stack \<subseteq> seen \<union> set as1" using Cons.prems(4) by auto
  have 1: "ser_property n h stack x seen
             = map_outcome (\<lambda>r. (r, seen \<union> set as1)) (std_property False n h x)"
    by (rule P[OF v(1) d(1) d(4) Cons.prems(4)])
  have 2: "ser_elements n h stack xs (seen \<union> set as1)
             = map_outcome (\<lambda>ps. (ps, seen \<union> set as1 \<union> set as2)) (std_elements False n h xs)"
    by (rule Cons.IH[OF v(2) d(2) d(5) stack'])
  show ?case
    by (cases "std_property False n h x"; cases "std_elements False n h xs")
       (simp_all add: 1 2 v(3) Un_assoc)
qed

lemma ser_members_tree:
  assumes P: "\<And>v as seen stack. visits n h v = Some as \<Longrightarrow> distinct as \<Longrightarrow> set as \<inter> seen = {}
                \<Longrightarrow> set stack \<subseteq> seen
                \<Longrightarrow> ser_property n h stack v seen
                      = map_outcome (\<lambda>r. (r, seen \<union> set as)) (std_property False n h v)"
  shows "visits_list n h (map snd kvs) = Some as \<Longrightarrow> distinct as \<Longrightarrow> set as \<inter> seen = {}
           \<Longrightarrow> set stack \<subseteq> seen
           \<Longrightarrow> ser_members n h stack kvs seen
                 = map_outcome (\<lambda>ps. (ps, seen \<union> set as)) (std_members False n h kvs)"
proof (induction kvs arbitrary: as seen)
  case Nil
  then show ?case by simp
next
  case (Cons kx kvs)
  obtain k x where kx: "kx = (k, x)" by (cases kx)
  from Cons.prems(1) kx obtain as1 as2 where
    v: "visits n h x = Some as1" "visits_list n h (map snd kvs) = Some as2" "as = as1 @ as2"
    by (auto split: option.splits)
  with Cons.prems have d: "distinct as1" "distinct as2" "set as1 \<inter> set as2 = {}"
    "set as1 \<inter> seen = {}" "set as2 \<inter> (seen \<union> set as1) = {}"
    by auto
  have stack': "set stack \<subseteq> seen \<union> set as1" using Cons.prems(4) by auto
  have 1: "ser_property n h stack x seen
             = map_outcome (\<lambda>r. (r, seen \<union> set as1)) (std_property False n h x)"
    by (rule P[OF v(1) d(1) d(4) Cons.prems(4)])
  have 2: "ser_members n h stack kvs (seen \<union> set as1)
             = map_outcome (\<lambda>ps. (ps, seen \<union> set as1 \<union> set as2)) (std_members False n h kvs)"
    by (rule Cons.IH[OF v(2) d(2) d(5) stack'])
  show ?case
    by (cases "std_property False n h x"; cases "std_members False n h kvs")
       (simp_all add: 1 2 v(3) kx Un_assoc)
qed

lemma ser_property_tree:
  "visits n h v = Some as \<Longrightarrow> distinct as \<Longrightarrow> set as \<inter> seen = {} \<Longrightarrow> set stack \<subseteq> seen
     \<Longrightarrow> ser_property n h stack v seen
           = map_outcome (\<lambda>r. (r, seen \<union> set as)) (std_property False n h v)"
proof (induction n arbitrary: v as seen stack)
  case 0
  then show ?case by simp
next
  case (Suc n)
  show ?case
  proof (cases "\<exists>a. v = VRef a")
    case False
    then have p: "\<forall>a. v \<noteq> VRef a" by simp
    then have "visits (Suc n) h v = Some []" by (cases v) simp_all
    with Suc.prems(1) have "as = []" by simp
    with ser_property_primitive[OF p] show ?thesis by (simp del: ser_property.simps std_property.simps)
  next
    case True
    then obtain a where v: "v = VRef a" by blast
    show ?thesis
    proof (cases "deref h a")
      case None
      with Suc.prems v have "a \<notin> seen" by auto
      with None v show ?thesis by (simp del: ser_property.simps add: ser_property_dangling)
    next
      case (Some c)
      show ?thesis
      proof (cases c)
        case (HArray xs)
        with Suc.prems(1) v Some obtain as' where
          as': "visits_list n h xs = Some as'" "as = a # as'"
          by (auto split: option.splits)
        with Suc.prems have a: "a \<notin> seen" "a \<notin> set as'" "distinct as'"
          "set as' \<inter> insert a seen = {}" "set (a # stack) \<subseteq> insert a seen"
          by auto
        have "ser_elements n h (a # stack) xs (insert a seen)
                = map_outcome (\<lambda>ps. (ps, insert a seen \<union> set as')) (std_elements False n h xs)"
          by (rule ser_elements_tree[OF Suc.IH as'(1) a(3) a(4) a(5)])
        moreover from a(1) Suc.prems(4) have "a \<notin> set stack" by auto
        ultimately show ?thesis
          unfolding v ser_property_array[OF Some[unfolded HArray]]
          using a(1) by (cases "std_elements False n h xs") (simp_all add: Some HArray as'(2))
      next
        case (HObject kvs)
        with Suc.prems(1) v Some obtain as' where
          as': "visits_list n h (map snd kvs) = Some as'" "as = a # as'"
          by (auto split: option.splits)
        with Suc.prems have a: "a \<notin> seen" "a \<notin> set as'" "distinct as'"
          "set as' \<inter> insert a seen = {}" "set (a # stack) \<subseteq> insert a seen"
          by auto
        have "ser_members n h (a # stack) kvs (insert a seen)
                = map_outcome (\<lambda>ps. (ps, insert a seen \<union> set as')) (std_members False n h kvs)"
          by (rule ser_members_tree[OF Suc.IH as'(1) a(3) a(4) a(5)])
        moreover from a(1) Suc.prems(4) have "a \<notin> set stack" by auto
        ultimately show ?thesis
          unfolding v ser_property_object[OF Some[unfolded HObject]]
          using a(1) by (cases "std_members False n h kvs") (simp_all add: Some HObject as'(2))
      next
        case (HDate d)
        with Suc.prems(1) v Some have as: "as = []" by simp
        show ?thesis
          using Some HDate v as
          by (auto simp: toJSON_def replacer_def is_object_def is_function_def special_text_def
                   split: jsdate.splits)
      next
        case (HRegExp src)
        with Suc.prems(1) v Some have as: "as = [a]" by simp
        with Suc.prems(3) have "a \<notin> seen" by simp
        then show ?thesis
          using Some HRegExp v as
          by (simp add: toJSON_def replacer_def is_object_def is_function_def special_text_def)
      next
        case (HFunction src)
        with Suc.prems(1) v Some have as: "as = []" by simp
        show ?thesis
          using Some HFunction v as
          by (simp add: toJSON_def replacer_def is_object_def is_function_def special_text_def)
      qed
    qed
  qed
qed

lemma std_elements_returns:
  assumes P: "\<And>v as. visits n h v = Some as \<Longrightarrow> std_property sub n h v \<noteq> Timeout"
  shows "visits_list n h xs = Some as \<Longrightarrow> std_elements sub n h xs \<noteq> Timeout"
proof (induction xs arbitrary: as)
  case Nil
  then show ?case by simp
next
  case (Cons x xs)
  from Cons.prems obtain as1 as2 where
    v: "visits n h x = Some as1" "visits_list n h xs = Some as2"
    by (auto split: option.splits)
  from P[OF v(1)] Cons.IH[OF v(2)] show ?case
    by (auto split: outcome.splits)
qed

lemma std_members_returns:
  assumes P: "\<And>v as. visits n h v = Some as \<Longrightarrow> std_property sub n h v \<noteq> Timeout"
  shows "visits_list n h (map snd kvs) = Some as \<Longrightarrow> std_members sub n h kvs \<noteq> Timeout"
proof (induction kvs arbitrary: as)
  case Nil
  then show ?case by simp
next
  case (Cons kx kvs)
  from Cons.prems obtain as1 as2 where
    v: "visits n h (snd kx) = Some as1" "visits_list n h (map snd kvs) = Some as2"
    by (auto split: option.splits)
  from P[OF v(1)] Cons.IH[OF v(2)] show ?case
    by (auto split: outcome.splits)
qed

lemma std_property_returns:
  "visits n h v = Some as \<Longrightarrow> std_property sub n h v \<noteq> Timeout"
proof (induction n arbitrary: v as)
  case 0
  then show ?case by simp
next
  case (Suc n)
  show ?case
  proof (cases v)
    case (VRef a)
    show ?thesis
    proof (cases "deref h a")
      case None
      with VRef show ?thesis by simp
    next
      case (Some c)
      show ?thesis
      proof (cases c)
        case (HArray xs)
        with Suc.prems VRef Some obtain as' where "visits_list n h xs = Some as'"
          by (auto split: option.splits)
        from std_elements_returns[where sub = sub, OF Suc.IH this] show ?thesis
          using VRef Some HArray by (auto split: outcome.splits)
      next
        case (HObject kvs)
        with Suc.prems VRef Some obtain as' where "visits_list n h (map snd kvs) = Some as'"
          by (auto split: option.splits)
        from std_members_returns[where sub = sub, OF Suc.IH this] show ?thesis
          using VRef Some HObject by (auto split: outcome.splits)
      qed (use VRef Some in \<open>auto split: jsdate.splits\<close>)
    qed
  qed simp_all
qed

lemma join_elements_returns:
  assumes P: "\<And>v as joining. visits n h v = Some as \<Longrightarrow> to_text n h joining v \<noteq> Timeout"
  shows "visits_list n h xs = Some as \<Longrightarrow> join_elements n h joining xs \<noteq> Timeout"
proof (induction xs arbitrary: as)
  case Nil
  then show ?case by simp
next
  case (Cons x xs)
  from Cons.prems obtain as1 as2 where
    v: "visits n h x = Some as1" "visits_list n h xs = Some as2"
    by (auto split: option.splits)
  from P[OF v(1), of joining] Cons.IH[OF v(2)] show ?case
    by (auto split: outcome.splits jsval.splits)
qed

lemma to_text_returns:
  "visits n h v = Some as \<Longrightarrow> to_text n h joining v \<noteq> Timeout"
proof (induction n arbitrary: v as joining)
  case 0
  then show ?case by simp
next
  case (Suc n)
  show ?case
  proof (cases v)
    case (VRef a)
    show ?thesis
    proof (cases "deref h a")
      case None
      with VRef show ?thesis by simp
    next
      case (Some c)
      show ?thesis
      proof (cases c)
        case (HArray xs)
        with Suc.prems VRef Some obtain as' where "visits_list n h xs = Some as'"
          by (auto split: option.splits)
        from join_elements_returns[where joining = "a # joining", OF Suc.IH this] show ?thesis
          using VRef Some HArray by (auto split: outcome.splits)
      qed (use VRef Some in auto)
    qed
  qed simp_all
qed

lemma tree_refinement:
  assumes "tree_shaped n h v"
  shows "fst (safeStringify n h v) = spec_serialize False n h v
         \<and> fst (safeStringify n h v) \<noteq> Timeout"
proof -
  from assms obtain as where vs: "visits n h v = Some as" and d: "distinct as"
    by (auto simp: tree_shaped_def split: option.splits)
  have ser: "ser_property n h [] v {} = map_outcome (\<lambda>r. (r, set as)) (std_property False n h v)"
    using ser_property_tree[OF vs d, of "{}" "[]"] by simp
  have js: "JSON_stringify n h v
              = (case std_property False n h v of
                   Returns (Some s) \<Rightarrow> Returns (RString s)
                 | Returns None \<Rightarrow> Returns RUndefined
                 | Throws e \<Rightarrow> Throws e
                 | Timeout \<Rightarrow> Timeout)"
    by (cases "std_property False n h v") (auto simp: JSON_stringify_def ser split: option.splits)
  have eq: "fst (safeStringify n h v) = spec_serialize False n h v"
    by (auto simp: safeStringify_def spec_serialize_def try_stringify_def js
             split: outcome.splits option.splits)
  have "std_property False n h v \<noteq> Timeout" by (rule std_property_returns[OF vs])
  moreover have "to_text n h [] v \<noteq> Timeout" by (rule to_text_returns[OF vs])
  ultimately have "spec_serialize False n h v \<noteq> Timeout"
    by (auto simp: spec_serialize_def special_text_def toISOString_def
             split: outcome.splits option.splits jsval.splits hobj.splits jsdate.splits)
  with eq show ?thesis by simp
qed

subsection \<open>Termination on every heap\<close>

text \<open>The cells that \<open>seen\<close> has not recorded yet.\<close>

lemma unseen_insert:
  assumes "a < length h" "a \<notin> seen" "card ({..<length h} - seen) < Suc n"
  shows "card ({..<length h} - insert a seen) < n"
proof -
  have "a \<in> {..<length h} - seen" using assms by simp
  then have "card ({..<length h} - seen - {a}) < card ({..<length h} - seen)"
    by (intro card_Diff1_less) auto
  moreover have "{..<length h} - insert a seen = {..<length h} - seen - {a}" by auto
  ultimately show ?thesis using assms(3) by simp
qed

lemma unseen_mono:
  assumes "seen \<subseteq> seen'" "card ({..<length h} - seen) < n"
  shows "card ({..<length h} - seen') < n"
proof -
  have "card ({..<length h} - seen') \<le> card ({..<length h} - seen)"
    using assms(1) by (intro card_mono) auto
  with assms(2) show ?thesis by simp
qed

lemma replacer_grows:
  "replacer h seen v = Returns (v', seen') \<Longrightarrow> seen \<subseteq> seen'"
  by (auto simp: replacer_def split: if_splits jsval.splits option.splits outcome.splits)

lemma replacer_no_timeout: "replacer h seen v \<noteq> Timeout"
  by (auto simp: replacer_def special_text_def toISOString_def
           split: if_splits jsval.splits option.splits outcome.splits hobj.splits jsdate.splits)

lemma replacer_leaf:
  assumes "replacer h seen (toJSON h v) = Returns (VRef a, seen')"
  shows "v = VRef a \<and> ((\<exists>xs. deref h a = Some (HArray xs)) \<or> (\<exists>kvs. deref h a = Some (HObject kvs))
                        \<or> deref h a = None)"
  using assms
  by (auto simp: replacer_def special_text_def toISOString_def toJSON_def circular_placeholder_def
           split: if_splits jsval.splits option.splits outcome.splits hobj.splits jsdate.splits)

lemma ser_property_shallow:
  assumes "\<forall>a. v = VRef a \<longrightarrow> (\<forall>xs. deref h a \<noteq> Some (HArray xs))
                                \<and> (\<forall>kvs. deref h a \<noteq> Some (HObject kvs))"
  shows "ser_property (Suc n) h stack v seen \<noteq> Timeout
         \<and> (\<forall>r s'. ser_property (Suc n) h stack v seen = Returns (r, s') \<longrightarrow> seen \<subseteq> s')"
proof (cases "replacer h seen (toJSON h v)")
  case (Returns p)
  obtain v' seen' where p: "p = (v', seen')" by (cases p)
  from Returns p have g: "seen \<subseteq> seen'" by (auto dest: replacer_grows)
  show ?thesis
  proof (cases "\<exists>a. v' = VRef a")
    case True
    then obtain a where a: "v' = VRef a" by blast
    with Returns p replacer_leaf[of h seen v a seen'] assms
    have "v = VRef a" "deref h a = None" by auto
    then show ?thesis using Returns p a g by simp
  next
    case False
    then show ?thesis using Returns p g by (cases v') auto
  qed
next
  case (Throws e)
  then show ?thesis by simp
next
  case Timeout
  then show ?thesis by (simp add: replacer_no_timeout)
qed

lemma ser_elements_terminates:
  assumes P: "\<And>v seen stack. card ({..<length h} - seen) < n
                \<Longrightarrow> ser_property n h stack v seen \<noteq> Timeout
                    \<and> (\<forall>r s'. ser_property n h stack v seen = Returns (r, s') \<longrightarrow> seen \<subseteq> s')"
  shows "card ({..<length h} - seen) < n
           \<Longrightarrow> ser_elements n h stack xs seen \<noteq> Timeout
               \<and> (\<forall>ps s'. ser_elements n h stack xs seen = Returns (ps, s') \<longrightarrow> seen \<subseteq> s')"
proof (induction xs arbitrary: seen)
  case Nil
  then show ?case by simp
next
  case (Cons x xs)
  note p = P[OF Cons.prems, of stack x]
  show ?case
  proof (cases "ser_property n h stack x seen")
    case (Returns q)
    obtain r s1 where q: "q = (r, s1)" by (cases q)
    with Returns p have g: "seen \<subseteq> s1" by simp
    from Cons.IH[OF unseen_mono[OF g Cons.prems]]
    show ?thesis using Returns q g by (auto split: outcome.splits)
  next
    case (Throws e)
    then show ?thesis by simp
  next
    case Timeout
    with p show ?thesis by simp
  qed
qed

lemma ser_members_terminates:
  assumes P: "\<And>v seen stack. card ({..<length h} - seen) < n
                \<Longrightarrow> ser_property n h stack v seen \<noteq> Timeout
                    \<and> (\<forall>r s'. ser_property n h stack v seen = Returns (r, s') \<longrightarrow> seen \<subseteq> s')"
  shows "card ({..<length h} - seen) < n
           \<Longrightarrow> ser_members n h stack kvs seen \<noteq> Timeout
               \<and> (\<forall>ps s'. ser_members n h stack kvs seen = Returns (ps, s') \<longrightarrow> seen \<subseteq> s')"
proof (induction kvs arbitrary: seen)
  case Nil
  then show ?case by simp
next
  case (Cons kx kvs)
  obtain k x where kx: "kx = (k, x)" by (cases kx)
  note p = P[OF Cons.prems, of stack x]
  show ?case
  proof (cases "ser_property n h stack x seen")
    case (Returns q)
    obtain r s1 where q: "q = (r, s1)" by (cases q)
    with Returns p have g: "seen \<subseteq> s1" by simp
    from Cons.IH[OF unseen_mono[OF g Cons.prems]]
    show ?thesis using Returns q g kx by (auto split: outcome.splits)
  next
    case (Throws e)
    then show ?thesis using kx by simp
  next
    case Timeout
    with p show ?thesis by simp
  qed
qed

lemma ser_property_terminates:
  "card ({..<length h} - seen) < n
     \<Longrightarrow> ser_property n h stack v seen \<noteq> Timeout
         \<and> (\<forall>r s'. ser_property n h stack v seen = Returns (r, s') \<longrightarrow> seen \<subseteq> s')"
proof (induction n arbitrary: v seen stack)
  case 0
  then show ?case by simp
next
  case (Suc n)
  consider (arr) a xs where "v = VRef a" "deref h a = Some (HArray xs)"
    | (obj) a kvs where "v = VRef a" "deref h a = Some (HObject kvs)"
    | (leaf) "\<forall>a. v = VRef a \<longrightarrow> (\<forall>xs. deref h a \<noteq> Some (HArray xs))
                                \<and> (\<forall>kvs. deref h a \<noteq> Some (HObject kvs))"
    by blast
  then show ?case
  proof cases
    case arr
    from arr(2) have a: "a < length h" by (simp add: deref_def split: if_splits)
    show ?thesis
    proof (cases "a \<in> seen \<or> a \<in> set stack")
      case True
      then show ?thesis
        unfolding arr(1) ser_property_array[OF arr(2)] by auto
    next
      case False
      then have "card ({..<length h} - insert a seen) < n"
        using unseen_insert[OF a _ Suc.prems] by simp
      from ser_elements_terminates[where stack = "a # stack" and xs = xs, OF Suc.IH this]
      show ?thesis
        unfolding arr(1) ser_property_array[OF arr(2)] using False
        by (cases "ser_elements n h (a # stack) xs (insert a seen)") auto
    qed
  next
    case obj
    from obj(2) have a: "a < length h" by (simp add: deref_def split: if_splits)
    show ?thesis
    proof (cases "a \<in> seen \<or> a \<in> set stack")
      case True
      then show ?thesis
        unfolding obj(1) ser_property_object[OF obj(2)] by auto
    next
      case False
      then have "card ({..<length h} - insert a seen) < n"
        using unseen_insert[OF a _ Suc.prems] by simp
      from ser_members_terminates[where stack = "a # stack" and kvs = kvs, OF Suc.IH this]
      show ?thesis
        unfolding obj(1) ser_property_object[OF obj(2)] using False
        by (cases "ser_members n h (a # stack) kvs (insert a seen)") auto
    qed
  next
    case leaf
    then show ?thesis by (rule ser_property_shallow)
  qed
qed

text \<open>\<^verbatim>\<open>String(value)\<close>: the arrays not being joined yet bound the depth.\<close>

lemma join_elements_terminates:
  assumes P: "\<And>v joining. card ({..<length h} - set joining) < n \<Longrightarrow> to_text n h joining v \<noteq> Timeout"
  shows "card ({..<length h} - set joining) < n \<Longrightarrow> join_elements n h joining xs \<noteq> Timeout"
proof (induction xs)
  case Nil
  then show ?case by simp
next
  case (Cons x xs)
  from P[OF Cons.prems, of x] Cons.IH[OF Cons.prems] show ?case
    by (auto split: outcome.splits jsval.splits)
qed

lemma to_text_terminates:
  "card ({..<length h} - set joining) < n \<Longrightarrow> to_text n h joining v \<noteq> Timeout"
proof (induction n arbitrary: v joining)
  case 0
  then show ?case by simp
next
  case (Suc n)
  show ?case
  proof (cases v)
    case (VRef a)
    show ?thesis
    proof (cases "deref h a")
      case None
      with VRef show ?thesis by simp
    next
      case (Some c)
      then have a: "a < length h" by (simp add: deref_def split: if_splits)
      show ?thesis
      proof (cases c)
        case (HArray xs)
        show ?thesis
        proof (cases "a \<in> set joining")
          case True
          with VRef Some HArray show ?thesis by simp
        next
          case False
          then have "card ({..<length h} - set (a # joining)) < n"
            using unseen_insert[OF a _ Suc.prems] by simp
          from join_elements_terminates[where xs = xs, OF Suc.IH this]
          show ?thesis using VRef Some HArray False by (auto split: outcome.splits)
        qed
      qed (use VRef Some in auto)
    qed
  qed simp_all
qed

lemma safeStringify_terminates:
  assumes "length h < n"
  shows "fst (safeStringify n h v) \<noteq> Timeout"
proof -
  have c: "card ({..<length h} - {}) < n" "card ({..<length h} - set []) < n"
    using assms by simp_all
  have 1: "ser_property n h [] v {} \<noteq> Timeout"
    using ser_property_terminates[OF c(1)] by blast
  have 2: "to_text n h [] v \<noteq> Timeout"
    by (rule to_text_terminates[OF c(2)])
  have "JSON_stringify n h v \<noteq> Timeout"
    using 1 by (auto simp: JSON_stringify_def split: outcome.splits option.splits)
  then have "try_stringify n h v \<noteq> Timeout"
    by (auto simp: try_stringify_def special_text_def toISOString_def
             split: option.splits outcome.splits jsval.splits hobj.splits jsdate.splits)
  with 2 show ?thesis
    by (auto simp: safeStringify_def split: outcome.splits)
qed

subsection \<open>Texts without an opening bracket\<close>

lemma digit_char_no_bracket: "digit_char d \<noteq> CHR ''[''"
proof -
  have "digit_char d \<in> set ''0123456789''"
    unfolding digit_char_def by (rule nth_mem) simp
  then show ?thesis by auto
qed

lemma hex_char_no_bracket: "hex_char d \<noteq> CHR ''[''"
proof -
  have "hex_char d \<in> set ''0123456789abcdef''"
    unfolding hex_char_def by (rule nth_mem) simp
  then show ?thesis by auto
qed

lemma show_nat_no_bracket: "CHR ''['' \<notin> set (show_nat n)"
proof (induction n rule: show_nat.induct)
  case (1 n)
  show ?case
  proof (cases "n < 10")
    case True
    then show ?thesis
      using digit_char_no_bracket[of n] by (subst show_nat.simps) auto
  next
    case False
    with 1 show ?thesis
      using digit_char_no_bracket[of n] by (subst show_nat.simps) auto
  qed
qed

lemma show_int_no_bracket: "CHR ''['' \<notin> set (show_int i)"
  by (simp add: show_int_def show_nat_no_bracket)

lemma escape_char_no_bracket: "CHR ''['' \<in> set (escape_char c) \<Longrightarrow> c = CHR ''[''"
  using hex_char_no_bracket[of "of_char c div 16"] hex_char_no_bracket[of "of_char c"]
  by (auto simp: escape_char_def split: if_splits)

lemma escape_char_cases:
  "escape_char c = [c] \<or> (\<exists>t. escape_char c = bsl # t \<and> CHR ''['' \<notin> set (bsl # t))"
proof (cases "escape_char c = [c]")
  case True
  then show ?thesis by simp
next
  case False
  then obtain t where t: "escape_char c = bsl # t"
    by (auto simp: escape_char_def split: if_splits)
  have "CHR ''['' \<notin> set (escape_char c)"
  proof
    assume "CHR ''['' \<in> set (escape_char c)"
    then have "c = CHR ''[''" by (rule escape_char_no_bracket)
    then have "escape_char c = [c]" by (simp add: escape_char_def)
    with False show False by simp
  qed
  with t show ?thesis by simp
qed

subsection \<open>Counting the placeholder\<close>

lemma placeholder_starts: "prefix circular_placeholder (c # cs) \<Longrightarrow> c = CHR ''[''"
  by (simp add: circular_placeholder_def)

lemma occurrences_skip:
  "CHR ''['' \<notin> set xs \<Longrightarrow> occurrences circular_placeholder (xs @ ys) = occurrences circular_placeholder ys"
  by (induction xs) (auto dest: placeholder_starts)

lemma quote_placeholder:
  "quote_json circular_placeholder = dq # circular_placeholder @ [dq]"
  by (simp add: quote_json_def circular_placeholder_def escape_char_def)

lemma occurrences_hit:
  "occurrences circular_placeholder (quote_json circular_placeholder @ ys)
     = Suc (occurrences circular_placeholder ys)"
proof -
  let ?t = "''Circular Reference]'' @ [dq]"
  have q: "CHR ''['' \<notin> set [dq]" and tail: "CHR ''['' \<notin> set ?t" by simp_all
  have 1: "quote_json circular_placeholder @ ys = [dq] @ (circular_placeholder @ dq # ys)"
    by (simp add: quote_placeholder)
  have 2: "circular_placeholder @ dq # ys = CHR ''['' # (?t @ ys)"
    by (simp add: circular_placeholder_def)
  have 3: "prefix circular_placeholder (CHR ''['' # (?t @ ys))"
    by (simp add: circular_placeholder_def)
  have "occurrences circular_placeholder (quote_json circular_placeholder @ ys)
          = occurrences circular_placeholder (CHR ''['' # (?t @ ys))"
    by (simp only: 1 2 occurrences_skip[OF q])
  also have "\<dots> = Suc (occurrences circular_placeholder (?t @ ys))"
    using 3 by (simp only: occurrences.simps if_True)
  also have "\<dots> = Suc (occurrences circular_placeholder ys)"
    by (simp only: occurrences_skip[OF tail])
  finally show ?thesis .
qed

lemma prefix_escape:
  "bsl \<notin> set xs \<Longrightarrow> dq \<notin> set xs
     \<Longrightarrow> prefix xs (concat (map escape_char s) @ dq # rest) \<Longrightarrow> prefix xs s"
proof (induction xs arbitrary: s)
  case Nil
  then show ?case by simp
next
  case (Cons x xs)
  then have x: "x \<noteq> bsl" "x \<noteq> dq" and xs: "bsl \<notin> set xs" "dq \<notin> set xs" by auto
  show ?case
  proof (cases s)
    case Nil
    with Cons.prems(3) x show ?thesis by simp
  next
    case (Cons d s')
    from escape_char_cases[of d] show ?thesis
    proof
      assume "escape_char d = [d]"
      with Cons.prems(3) Cons have "x = d" "prefix xs (concat (map escape_char s') @ dq # rest)"
        by simp_all
      with Cons.IH[OF xs, of s'] Cons show ?thesis by simp
    next
      assume "\<exists>t. escape_char d = bsl # t \<and> CHR ''['' \<notin> set (bsl # t)"
      with Cons.prems(3) Cons x show ?thesis by auto
    qed
  qed
qed

lemma occurrences_escape:
  assumes "occurrences circular_placeholder s = 0"
  shows "occurrences circular_placeholder (concat (map escape_char s) @ dq # rest)
           = occurrences circular_placeholder rest"
  using assms
proof (induction s)
  case Nil
  have "CHR ''['' \<notin> set [dq]" by simp
  from occurrences_skip[OF this, of rest] show ?case by simp
next
  case (Cons d s)
  let ?X = "concat (map escape_char s) @ dq # rest"
  from Cons.prems have np: "\<not> prefix circular_placeholder (d # s)"
    and z: "occurrences circular_placeholder s = 0"
    by (auto split: if_splits)
  from Cons.IH[OF z] have ih: "occurrences circular_placeholder ?X = occurrences circular_placeholder rest" .
  from escape_char_cases[of d] show ?case
  proof
    assume o: "escape_char d = [d]"
    have "\<not> prefix circular_placeholder (d # ?X)"
    proof
      assume pre: "prefix circular_placeholder (d # ?X)"
      then have d: "d = CHR ''[''" and tl: "prefix ''Circular Reference]'' ?X"
        by (simp_all add: circular_placeholder_def)
      have "prefix ''Circular Reference]'' s"
        by (rule prefix_escape[OF _ _ tl]) simp_all
      with d have "prefix circular_placeholder (d # s)"
        by (simp add: circular_placeholder_def)
      with np show False by simp
    qed
    with o ih show ?thesis by simp
  next
    assume "\<exists>t. escape_char d = bsl # t \<and> CHR ''['' \<notin> set (bsl # t)"
    then obtain t where t: "escape_char d = bsl # t" "CHR ''['' \<notin> set (bsl # t)" by blast
    have "occurrences circular_placeholder ((bsl # t) @ ?X) = occurrences circular_placeholder ?X"
      by (rule occurrences_skip[OF t(2)])
    with t(1) ih show ?thesis by simp
  qed
qed

lemma show_nat_not_empty: "show_nat n \<noteq> []"
  by (subst show_nat.simps) simp

lemma digit_char_not_C: "digit_char d \<noteq> CHR ''C''"
proof -
  have "digit_char d \<in> set ''0123456789''"
    unfolding digit_char_def by (rule nth_mem) simp
  then show ?thesis by auto
qed

lemma show_nat_starts: "starts_ok (show_nat n)"
proof (induction n rule: show_nat.induct)
  case (1 n)
  show ?case
  proof (cases "n < 10")
    case True
    then show ?thesis
      using digit_char_not_C[of n] by (subst show_nat.simps) (simp add: starts_ok_def)
  next
    case False
    with 1 have "starts_ok (show_nat (n div 10))" by simp
    moreover have "show_nat (n div 10) \<noteq> []" by (rule show_nat_not_empty)
    ultimately show ?thesis
      using False by (subst show_nat.simps) (auto simp: starts_ok_def split: list.splits)
  qed
qed

lemma show_int_starts: "show_int i \<noteq> [] \<and> starts_ok (show_int i)"
  using show_nat_starts[of "nat i"] show_nat_not_empty
  by (auto simp: show_int_def starts_ok_def)

lemma chunk_plain:
  assumes "t \<noteq> []" "starts_ok t" "CHR ''['' \<notin> set t"
  shows "chunk t 0"
  using assms by (simp add: chunk_def occurrences_skip)

lemma chunk_quote:
  assumes "occurrences circular_placeholder s = 0"
  shows "chunk (quote_json s) 0"
  unfolding chunk_def
proof (intro conjI allI impI)
  show "quote_json s \<noteq> []" by (simp add: quote_json_def)
  show "starts_ok (quote_json s)" by (simp add: quote_json_def starts_ok_def)
  fix rest
  have q: "CHR ''['' \<notin> set [dq]" by simp
  have "occurrences circular_placeholder (quote_json s @ rest)
          = occurrences circular_placeholder ([dq] @ (concat (map escape_char s) @ dq # rest))"
    by (simp add: quote_json_def)
  also have "\<dots> = occurrences circular_placeholder (concat (map escape_char s) @ dq # rest)"
    by (rule occurrences_skip[OF q])
  also have "\<dots> = occurrences circular_placeholder rest"
    by (rule occurrences_escape[OF assms])
  finally show "occurrences circular_placeholder (quote_json s @ rest)
                  = 0 + occurrences circular_placeholder rest" by simp
qed

lemma chunk_placeholder: "chunk (quote_json circular_placeholder) 1"
  by (simp add: chunk_def occurrences_hit) (simp add: quote_json_def starts_ok_def)

lemma chunk_null: "chunk ''null'' 0"
  by (rule chunk_plain) (simp_all add: starts_ok_def)

lemma chunk_bool: "chunk (if b then ''true'' else ''false'') 0"
  by (rule chunk_plain) (simp_all add: starts_ok_def)

lemma chunk_int: "chunk (show_int i) 0"
  using show_int_starts[of i] by (intro chunk_plain) (simp_all add: show_int_no_bracket)

lemma occurrences_open:
  assumes "starts_ok ys"
  shows "occurrences circular_placeholder (CHR ''['' # ys) = occurrences circular_placeholder ys"
proof (cases ys)
  case Nil
  then show ?thesis by (simp add: circular_placeholder_def)
next
  case (Cons c cs)
  with assms have "c \<noteq> CHR ''C''" by (simp add: starts_ok_def)
  then have "\<not> prefix circular_placeholder (CHR ''['' # c # cs)"
    by (simp add: circular_placeholder_def)
  then show ?thesis using Cons by simp
qed

lemma chunk_join:
  assumes "list_all2 chunk ms cs" "starts_ok rest"
  shows "occurrences circular_placeholder (join ms @ rest)
           = sum_list cs + occurrences circular_placeholder rest"
  using assms(1)
proof (induction ms arbitrary: cs rule: join.induct)
  case 1
  then show ?case by simp
next
  case (2 p)
  then show ?case using assms(2) by (auto simp: list_all2_Cons1 chunk_def)
next
  case (3 p q ps)
  from "3.prems" obtain c cs' where cs: "cs = c # cs'"
    and p: "chunk p c" and r: "list_all2 chunk (q # ps) cs'"
    by (auto simp: list_all2_Cons1)
  have comma: "CHR ''['' \<notin> set '',''" by simp
  have s: "starts_ok ('','' @ (join (q # ps) @ rest))" by (simp add: starts_ok_def)
  have "occurrences circular_placeholder (join (p # q # ps) @ rest)
          = occurrences circular_placeholder (p @ ('','' @ (join (q # ps) @ rest)))"
    by simp
  also have "\<dots> = c + occurrences circular_placeholder ('','' @ (join (q # ps) @ rest))"
    using p s unfolding chunk_def by blast
  also have "\<dots> = c + occurrences circular_placeholder (join (q # ps) @ rest)"
    by (simp only: occurrences_skip[OF comma])
  also have "\<dots> = c + (sum_list cs' + occurrences circular_placeholder rest)"
    using "3.IH"[OF r] by simp
  finally show ?case using cs by simp
qed

lemma join_starts:
  assumes "list_all2 chunk ms cs" "starts_ok rest"
  shows "starts_ok (join ms @ rest)"
proof (cases ms rule: join.cases)
  case 1
  then show ?thesis using assms(2) by simp
next
  case (2 p)
  with assms(1) have "p \<noteq> []" "starts_ok p" by (auto simp: list_all2_Cons1 chunk_def)
  then show ?thesis using 2 by (cases p) (simp_all add: starts_ok_def)
next
  case (3 p q ps)
  with assms(1) have "p \<noteq> []" "starts_ok p" by (auto simp: list_all2_Cons1 chunk_def)
  then show ?thesis using 3 by (cases p) (simp_all add: starts_ok_def)
qed

lemma chunk_array:
  assumes "list_all2 chunk ms cs"
  shows "chunk (array_text ms) (sum_list cs)"
  unfolding chunk_def
proof (intro conjI allI impI)
  show "array_text ms \<noteq> []" by (simp add: array_text_def)
  show "starts_ok (array_text ms)" by (simp add: array_text_def starts_ok_def)
  fix rest assume r: "starts_ok rest"
  have close: "CHR ''['' \<notin> set '']''" by simp
  have r': "starts_ok ('']'' @ rest)" by (simp add: starts_ok_def)
  have "occurrences circular_placeholder (array_text ms @ rest)
          = occurrences circular_placeholder (CHR ''['' # (join ms @ ('']'' @ rest)))"
    by (simp add: array_text_def)
  also have "\<dots> = occurrences circular_placeholder (join ms @ ('']'' @ rest))"
    by (rule occurrences_open[OF join_starts[OF assms r']])
  also have "\<dots> = sum_list cs + occurrences circular_placeholder ('']'' @ rest)"
    by (rule chunk_join[OF assms r'])
  also have "\<dots> = sum_list cs + occurrences circular_placeholder rest"
    by (simp only: occurrences_skip[OF close])
  finally show "occurrences circular_placeholder (array_text ms @ rest)
                  = sum_list cs + occurrences circular_placeholder rest" .
qed

lemma chunk_object:
  assumes "list_all2 chunk ms cs"
  shows "chunk (object_text ms) (sum_list cs)"
  unfolding chunk_def
proof (intro conjI allI impI)
  show "object_text ms \<noteq> []" by (simp add: object_text_def)
  show "starts_ok (object_text ms)" by (simp add: object_text_def starts_ok_def)
  fix rest assume r: "starts_ok rest"
  have close: "CHR ''['' \<notin> set ''}''" and opn: "CHR ''['' \<notin> set ''{''" by simp_all
  have r': "starts_ok (''}'' @ rest)" by (simp add: starts_ok_def)
  have "occurrences circular_placeholder (object_text ms @ rest)
          = occurrences circular_placeholder (''{'' @ (join ms @ (''}'' @ rest)))"
    by (simp add: object_text_def)
  also have "\<dots> = occurrences circular_placeholder (join ms @ (''}'' @ rest))"
    by (simp only: occurrences_skip[OF opn])
  also have "\<dots> = sum_list cs + occurrences circular_placeholder (''}'' @ rest)"
    by (rule chunk_join[OF assms r'])
  also have "\<dots> = sum_list cs + occurrences circular_placeholder rest"
    by (simp only: occurrences_skip[OF close])
  finally show "occurrences circular_placeholder (object_text ms @ rest)
                  = sum_list cs + occurrences circular_placeholder rest" .
qed

lemma chunk_member:
  assumes "occurrences circular_placeholder k = 0" "chunk t c"
  shows "chunk (quote_json k @ '':'' @ t) c"
  unfolding chunk_def
proof (intro conjI allI impI)
  show "quote_json k @ '':'' @ t \<noteq> []" by simp
  show "starts_ok (quote_json k @ '':'' @ t)" by (simp add: quote_json_def starts_ok_def)
  fix rest assume r: "starts_ok rest"
  have colon: "CHR ''['' \<notin> set '':''" by simp
  have s: "starts_ok ('':'' @ (t @ rest))" by (simp add: starts_ok_def)
  have "occurrences circular_placeholder ((quote_json k @ '':'' @ t) @ rest)
          = occurrences circular_placeholder (quote_json k @ ('':'' @ (t @ rest)))"
    by simp
  also have "\<dots> = 0 + occurrences circular_placeholder ('':'' @ (t @ rest))"
    using chunk_quote[OF assms(1)] s unfolding chunk_def by blast
  also have "\<dots> = occurrences circular_placeholder (t @ rest)"
    by (simp only: occurrences_skip[OF colon] add_0)
  also have "\<dots> = c + occurrences circular_placeholder rest"
    using assms(2) r unfolding chunk_def by blast
  finally show "occurrences circular_placeholder ((quote_json k @ '':'' @ t) @ rest)
                  = c + occurrences circular_placeholder rest" .
qed

subsection \<open>The unfolding that stops at a cyclic edge\<close>

lemma path_room:
  assumes "distinct path" "set path \<subseteq> {..<length (h::heap)}" "a < length h" "a \<notin> set path"
  shows "length path < length h"
proof -
  have "card (set (a # path)) \<le> card {..<length h}"
    using assms by (intro card_mono) auto
  moreover have "card (set (a # path)) = Suc (length path)"
    using assms distinct_card[of "a # path"] by simp
  ultimately show ?thesis by simp
qed

lemma walk_list_total:
  assumes "\<And>v. walk n h path v \<noteq> None"
  shows "walk_list n h path xs \<noteq> None"
proof (induction xs)
  case Nil
  then show ?case by simp
next
  case (Cons x xs)
  with assms[of x] show ?case by (auto split: option.splits)
qed

lemma walk_total:
  "distinct path \<Longrightarrow> set path \<subseteq> {..<length h} \<Longrightarrow> length h - length path < n
     \<Longrightarrow> walk n h path v \<noteq> None"
proof (induction n arbitrary: path v)
  case 0
  then show ?case by simp
next
  case (Suc n)
  have step: "walk_list n h (a # path) xs \<noteq> None"
    if a: "a < length h" "a \<notin> set path" for a xs
  proof (rule walk_list_total)
    fix v
    from path_room[OF Suc.prems(1,2) a] have "length path < length h" .
    with Suc.prems(3) have "length h - length (a # path) < n" by simp
    moreover have "distinct (a # path)" "set (a # path) \<subseteq> {..<length h}"
      using Suc.prems(1,2) a by auto
    ultimately show "walk n h (a # path) v \<noteq> None" by (intro Suc.IH)
  qed
  show ?case
  proof (cases v)
    case (VRef a)
    show ?thesis
    proof (cases "deref h a")
      case None
      with VRef show ?thesis by simp
    next
      case (Some cell)
      then have lt: "a < length h" by (simp add: deref_def split: if_splits)
      show ?thesis
      proof (cases "a \<in> set path")
        case True
        with VRef Some show ?thesis by (cases cell) simp_all
      next
        case False
        from step[OF lt False] VRef Some False show ?thesis
          by (cases cell) (auto split: option.splits)
      qed
    qed
  qed simp_all
qed

lemma walk_elements:
  assumes P: "\<And>v as c seen. walk n h stack v = Some (as, c) \<Longrightarrow> distinct as
                \<Longrightarrow> set as \<inter> seen = {} \<Longrightarrow> set stack \<subseteq> seen
                \<Longrightarrow> \<forall>b \<in> set as. clean_at h b \<Longrightarrow> clean_val h v
                \<Longrightarrow> \<exists>r. ser_property n h stack v seen = Returns (r, seen \<union> set as)
                        \<and> (case r of None \<Rightarrow> c = 0 | Some t \<Rightarrow> chunk t c)"
  shows "walk_list n h stack xs = Some (as, c) \<Longrightarrow> distinct as \<Longrightarrow> set as \<inter> seen = {}
           \<Longrightarrow> set stack \<subseteq> seen \<Longrightarrow> \<forall>b \<in> set as. clean_at h b
           \<Longrightarrow> \<forall>x \<in> set xs. clean_val h x
           \<Longrightarrow> \<exists>ps cs. ser_elements n h stack xs seen = Returns (ps, seen \<union> set as)
                  \<and> list_all2 chunk ps cs \<and> sum_list cs = c"
proof (induction xs arbitrary: as c seen)
  case Nil
  then show ?case by simp
next
  case (Cons x xs)
  from Cons.prems(1) obtain as1 c1 as2 c2 where
    w: "walk n h stack x = Some (as1, c1)" "walk_list n h stack xs = Some (as2, c2)"
       "as = as1 @ as2" "c = c1 + c2"
    by (auto split: option.splits)
  with Cons.prems have d: "distinct as1" "distinct as2"
    "set as1 \<inter> seen = {}" "set as2 \<inter> (seen \<union> set as1) = {}"
    "\<forall>b \<in> set as1. clean_at h b" "\<forall>b \<in> set as2. clean_at h b"
    "clean_val h x" "\<forall>x \<in> set xs. clean_val h x"
    by auto
  have stack': "set stack \<subseteq> seen \<union> set as1" using Cons.prems(4) by auto
  from P[OF w(1) d(1) d(3) Cons.prems(4) d(5) d(7)] obtain r where
    r: "ser_property n h stack x seen = Returns (r, seen \<union> set as1)"
       "case r of None \<Rightarrow> c1 = 0 | Some t \<Rightarrow> chunk t c1"
    by blast
  from Cons.IH[OF w(2) d(2) d(4) stack' d(6) d(8)] obtain ps cs where
    ps: "ser_elements n h stack xs (seen \<union> set as1) = Returns (ps, seen \<union> set as1 \<union> set as2)"
        "list_all2 chunk ps cs" "sum_list cs = c2"
    by blast
  have e: "chunk (element_text r) c1"
    using r(2) by (cases r) (simp_all add: element_text_def chunk_null)
  have "ser_elements n h stack (x # xs) seen = Returns (element_text r # ps, seen \<union> set as)"
    using r(1) ps(1) by (simp add: w(3) Un_assoc)
  moreover have "list_all2 chunk (element_text r # ps) (c1 # cs)"
    using e ps(2) by simp
  moreover have "sum_list (c1 # cs) = c" using ps(3) w(4) by simp
  ultimately show ?case by blast
qed

lemma walk_members:
  assumes P: "\<And>v as c seen. walk n h stack v = Some (as, c) \<Longrightarrow> distinct as
                \<Longrightarrow> set as \<inter> seen = {} \<Longrightarrow> set stack \<subseteq> seen
                \<Longrightarrow> \<forall>b \<in> set as. clean_at h b \<Longrightarrow> clean_val h v
                \<Longrightarrow> \<exists>r. ser_property n h stack v seen = Returns (r, seen \<union> set as)
                        \<and> (case r of None \<Rightarrow> c = 0 | Some t \<Rightarrow> chunk t c)"
  shows "walk_list n h stack (map snd kvs) = Some (as, c) \<Longrightarrow> distinct as
           \<Longrightarrow> set as \<inter> seen = {} \<Longrightarrow> set stack \<subseteq> seen
           \<Longrightarrow> \<forall>b \<in> set as. clean_at h b
           \<Longrightarrow> \<forall>kx \<in> set kvs. occurrences circular_placeholder (fst kx) = 0 \<and> clean_val h (snd kx)
           \<Longrightarrow> \<exists>ms cs. ser_members n h stack kvs seen = Returns (ms, seen \<union> set as)
                  \<and> list_all2 chunk ms cs \<and> sum_list cs = c"
proof (induction kvs arbitrary: as c seen)
  case Nil
  then show ?case by simp
next
  case (Cons kx kvs)
  obtain k x where kx: "kx = (k, x)" by (cases kx)
  from Cons.prems(1) kx obtain as1 c1 as2 c2 where
    w: "walk n h stack x = Some (as1, c1)" "walk_list n h stack (map snd kvs) = Some (as2, c2)"
       "as = as1 @ as2" "c = c1 + c2"
    by (auto split: option.splits)
  with Cons.prems kx have d: "distinct as1" "distinct as2"
    "set as1 \<inter> seen = {}" "set as2 \<inter> (seen \<union> set as1) = {}"
    "\<forall>b \<in> set as1. clean_at h b" "\<forall>b \<in> set as2. clean_at h b"
    "clean_val h x" "\<forall>kx \<in> set kvs. occurrences circular_placeholder (fst kx) = 0 \<and> clean_val h (snd kx)"
    "occurrences circular_placeholder k = 0"
    by auto
  have stack': "set stack \<subseteq> seen \<union> set as1" using Cons.prems(4) by auto
  from P[OF w(1) d(1) d(3) Cons.prems(4) d(5) d(7)] obtain r where
    r: "ser_property n h stack x seen = Returns (r, seen \<union> set as1)"
       "case r of None \<Rightarrow> c1 = 0 | Some t \<Rightarrow> chunk t c1"
    by blast
  from Cons.IH[OF w(2) d(2) d(4) stack' d(6) d(8)] obtain ms cs where
    ms: "ser_members n h stack kvs (seen \<union> set as1) = Returns (ms, seen \<union> set as1 \<union> set as2)"
        "list_all2 chunk ms cs" "sum_list cs = c2"
    by blast
  have out: "ser_members n h stack (kx # kvs) seen = Returns (member_text k r @ ms, seen \<union> set as)"
    using r(1) ms(1) by (simp add: kx w(3) Un_assoc)
  show ?case
  proof (cases r)
    case None
    with r(2) have "c1 = 0" by simp
    with out None ms(2,3) w(4) show ?thesis by (auto simp: member_text_def)
  next
    case (Some t)
    with r(2) have "chunk t c1" by simp
    then have "chunk (quote_json k @ '':'' @ t) c1" by (rule chunk_member[OF d(9)])
    then have "list_all2 chunk (member_text k r @ ms) (c1 # cs)"
      using ms(2) Some by (simp add: member_text_def)
    moreover have "sum_list (c1 # cs) = c" using ms(3) w(4) by simp
    ultimately show ?thesis using out by blast
  qed
qed

lemma walk_property:
  "walk n h stack v = Some (as, c) \<Longrightarrow> distinct as \<Longrightarrow> set as \<inter> seen = {}
     \<Longrightarrow> set stack \<subseteq> seen \<Longrightarrow> \<forall>b \<in> set as. clean_at h b \<Longrightarrow> clean_val h v
     \<Longrightarrow> \<exists>r. ser_property n h stack v seen = Returns (r, seen \<union> set as)
             \<and> (case r of None \<Rightarrow> c = 0 | Some t \<Rightarrow> chunk t c)"
proof (induction n arbitrary: v as c seen stack)
  case 0
  then show ?case by simp
next
  case (Suc n)
  note IH = Suc.IH
  show ?case
  proof (cases "\<exists>a. v = VRef a")
    case False
    then have p: "\<forall>a. v \<noteq> VRef a" by simp
    from p Suc.prems(1) have w: "as = []" "c = 0" by (cases v; simp)+
    show ?thesis
      using Suc.prems(6) w p
      by (cases v)
         (simp_all add: replacer_primitive toJSON_primitive clean_val_def
            chunk_null chunk_bool chunk_int chunk_quote)
  next
    case True
    then obtain a where v: "v = VRef a" by blast
    from Suc.prems(6) v obtain cell where cell: "deref h a = Some cell"
      by (auto simp: clean_val_def split: option.splits)
    show ?thesis
    proof (cases cell)
      case (HArray xs)
      with cell have arr: "deref h a = Some (HArray xs)" by simp
      show ?thesis
      proof (cases "a \<in> set stack")
        case True
        with Suc.prems(1) v arr have w: "as = []" "c = 1" by simp_all
        from True Suc.prems(4) have "a \<in> seen" by auto
        then show ?thesis
          unfolding v ser_property_array[OF arr] using w chunk_placeholder by simp
      next
        case False
        with Suc.prems(1) v arr obtain as' where
          w: "walk_list n h (a # stack) xs = Some (as', c)" "as = a # as'"
          by (auto split: option.splits)
        with Suc.prems have d: "distinct as'" "a \<notin> seen" "set as' \<inter> insert a seen = {}"
          "set (a # stack) \<subseteq> insert a seen" "\<forall>b \<in> set as'. clean_at h b" "clean_at h a"
          by auto
        from d(6) arr have cl: "\<forall>x \<in> set xs. clean_val h x" by (simp add: clean_at_def)
        from walk_elements[where n = n and h = h and stack = "a # stack",
               OF IH w(1) d(1) d(3) d(4) d(5) cl]
        obtain ps cs where
          ps: "ser_elements n h (a # stack) xs (insert a seen) = Returns (ps, insert a seen \<union> set as')"
              "list_all2 chunk ps cs" "sum_list cs = c"
          by blast
        have "chunk (array_text ps) c" using chunk_array[OF ps(2)] ps(3) by simp
        then show ?thesis
          unfolding v ser_property_array[OF arr] using False d(2) ps(1) w(2) by simp
      qed
    next
      case (HObject kvs)
      with cell have obj: "deref h a = Some (HObject kvs)" by simp
      show ?thesis
      proof (cases "a \<in> set stack")
        case True
        with Suc.prems(1) v obj have w: "as = []" "c = 1" by simp_all
        from True Suc.prems(4) have "a \<in> seen" by auto
        then show ?thesis
          unfolding v ser_property_object[OF obj] using w chunk_placeholder by simp
      next
        case False
        with Suc.prems(1) v obj obtain as' where
          w: "walk_list n h (a # stack) (map snd kvs) = Some (as', c)" "as = a # as'"
          by (auto split: option.splits)
        with Suc.prems have d: "distinct as'" "a \<notin> seen" "set as' \<inter> insert a seen = {}"
          "set (a # stack) \<subseteq> insert a seen" "\<forall>b \<in> set as'. clean_at h b" "clean_at h a"
          by auto
        from d(6) obj have cl: "\<forall>kx \<in> set kvs. occurrences circular_placeholder (fst kx) = 0 \<and> clean_val h (snd kx)"
          by (simp add: clean_at_def)
        from walk_members[where n = n and h = h and stack = "a # stack",
               OF IH w(1) d(1) d(3) d(4) d(5) cl]
        obtain ms cs where
          ms: "ser_members n h (a # stack) kvs (insert a seen) = Returns (ms, insert a seen \<union> set as')"
              "list_all2 chunk ms cs" "sum_list cs = c"
          by blast
        have "chunk (object_text ms) c" using chunk_object[OF ms(2)] ms(3) by simp
        then show ?thesis
          unfolding v ser_property_object[OF obj] using False d(2) ms(1) w(2) by simp
      qed
    next
      case (HDate d)
      with cell Suc.prems(1) v have w: "as = []" "c = 0" by simp_all
      show ?thesis
      proof (cases d)
        case (ValidDate utc loc)
        with HDate cell Suc.prems(6) v have "occurrences circular_placeholder utc = 0" by (simp add: clean_val_def)
        then have "chunk (quote_json utc) 0" by (rule chunk_quote)
        then show ?thesis
          using w cell HDate ValidDate v by (simp add: toJSON_def replacer_primitive)
      next
        case InvalidDate
        then show ?thesis
          using w cell HDate v by (simp add: toJSON_def replacer_primitive chunk_null)
      qed
    next
      case (HRegExp src)
      with cell Suc.prems(1) v have w: "as = [a]" "c = 0" by simp_all
      with Suc.prems(3) have ns: "a \<notin> seen" by simp
      from HRegExp cell Suc.prems(6) v have "occurrences circular_placeholder src = 0" by (simp add: clean_val_def)
      then have "chunk (quote_json src) 0" by (rule chunk_quote)
      then show ?thesis
        using w ns cell HRegExp v
        by (simp add: toJSON_def replacer_def is_object_def is_function_def special_text_def)
    next
      case (HFunction src)
      with cell Suc.prems(1) v have w: "as = []" "c = 0" by simp_all
      from HFunction cell Suc.prems(6) v have "occurrences circular_placeholder src = 0" by (simp add: clean_val_def)
      then have "chunk (quote_json src) 0" by (rule chunk_quote)
      then show ?thesis
        using w cell HFunction v
        by (simp add: toJSON_def replacer_def is_object_def is_function_def special_text_def)
    qed
  qed
qed

lemma cyclic_edge_count:
  assumes w: "walk n h [] (VRef a) = Some (as, c)"
    and d: "distinct as"
    and cl: "\<forall>b \<in> set as. clean_at h b"
    and comp: "is_composite h a"
  shows "\<exists>s. safeStringify n h (VRef a) = (Returns (RString s), [])
             \<and> occurrences circular_placeholder s = c"
proof -
  from comp have cv: "clean_val h (VRef a)"
    by (auto simp: is_composite_def clean_val_def split: option.splits hobj.splits)
  from walk_property[OF w d _ _ cl cv, of "{}"] obtain r where
    r: "ser_property n h [] (VRef a) {} = Returns (r, set as)"
       "case r of None \<Rightarrow> c = 0 | Some t \<Rightarrow> chunk t c"
    by auto
  from w have n: "n \<noteq> 0" by (cases n) simp_all
  from comp have sp: "special_text h (VRef a) = None"
    by (auto simp: is_composite_def special_text_def split: option.splits hobj.splits)
  from n obtain m where m: "n = Suc m" by (cases n) simp_all
  have "\<exists>t. r = Some t"
  proof (cases "deref h a")
    case None
    with comp show ?thesis by (simp add: is_composite_def)
  next
    case (Some cell)
    show ?thesis
    proof (cases cell)
      case (HArray xs)
      with Some have arr: "deref h a = Some (HArray xs)" by simp
      from r(1) show ?thesis
        unfolding m ser_property_array[OF arr]
        by (cases "ser_elements m h [a] xs {a}") auto
    next
      case (HObject kvs)
      with Some have obj: "deref h a = Some (HObject kvs)" by simp
      from r(1) show ?thesis
        unfolding m ser_property_object[OF obj]
        by (cases "ser_members m h [a] kvs {a}") auto
    qed (use comp Some in \<open>simp_all add: is_composite_def\<close>)
  qed
  then obtain t where t: "r = Some t" by blast
  with r(2) have "chunk t c" by simp
  moreover have "starts_ok []" by (simp add: starts_ok_def)
  ultimately have "occurrences circular_placeholder (t @ [])
                     = c + occurrences circular_placeholder []"
    unfolding chunk_def by blast
  then have "occurrences circular_placeholder t = c" by (simp add: circular_placeholder_def)
  moreover have "safeStringify n h (VRef a) = (Returns (RString t), [])"
    using r(1) t sp
    by (simp add: safeStringify_def try_stringify_def JSON_stringify_def del: ser_property.simps)
  ultimately show ?thesis by blast
qed

subsection \<open>Claims about safeStringify\<close>

text \<open>
  C1, on inputs on which the code breaks it: for a Symbol, \<^verbatim>\<open>JSON.stringify\<close>
  returns \<^verbatim>\<open>undefined\<close> without throwing, and \<^verbatim>\<open>safeStringify\<close> returns
  that value, which is not a string. For the array \<^verbatim>\<open>[1n, Symbol("s")]\<close> the
  encoder rejects the BigInt, and the fallback \<^verbatim>\<open>String(value)\<close> throws a
  TypeError on the Symbol element, which reaches the caller.
\<close>

theorem C1_not_a_string:
  "safeStringify (Suc n) h (VSymbol d) = (Returns RUndefined, [])
   \<and> safeStringify 3 [HArray [VBigInt 1, VSymbol ''s'']] (VRef 0) = (Throws TypeError, [TypeError])"
proof
  show "safeStringify (Suc n) h (VSymbol d) = (Returns RUndefined, [])"
    by (simp add: safeStringify_def try_stringify_def special_text_def JSON_stringify_def
          toJSON_def replacer_def is_object_def)
  show "safeStringify 3 [HArray [VBigInt 1, VSymbol ''s'']] (VRef 0) = (Throws TypeError, [TypeError])"
    by code_simp
qed

text \<open>
  C2, as stated: for an acyclic value, the output is the standard structural encoding
  with the four substitutions at every depth, and no placeholder is emitted when a
  composite is referenced twice without a cycle. It fails on the code for the acyclic
  array \<^verbatim>\<open>[o, o, undefined]\<close>: the second reference to \<^verbatim>\<open>o\<close> is rendered
  as the placeholder, and the nested absent-marker as \<^verbatim>\<open>null\<close>, where the
  encoding of the claim is \<^verbatim>\<open>[{},{},"undefined"]\<close>.
\<close>

theorem C2_shared_composite:
  "acyclic_within 3 shared_heap (VRef 0)
   \<and> fst (safeStringify 3 shared_heap (VRef 0))
       = Returns (RString (''[{},'' @ quote_json circular_placeholder @ '',null]''))
   \<and> spec_serialize True 3 shared_heap (VRef 0)
       = Returns (RString (''[{},{},'' @ quote_json ''undefined'' @ '']''))
   \<and> spec_serialize False 3 shared_heap (VRef 0) = Returns (RString ''[{},{},null]'')"
  unfolding shared_heap_def acyclic_within_def by code_simp

text \<open>
  C2, amended: for every tree-shaped value (a value whose unfolding ends and meets no
  array, object or RegExp twice), \<^verbatim>\<open>safeStringify\<close> terminates and returns the
  standard structural encoding in which a timestamp, a compiled pattern and a callable
  are replaced by their texts at every depth, and the absent-marker at top level only.
  The visited set changes nothing there: two distinct composites never give a
  placeholder, however equal their contents.
\<close>

theorem C2_tree_refinement:
  assumes "tree_shaped n h v"
  shows "fst (safeStringify n h v) = spec_serialize False n h v
         \<and> fst (safeStringify n h v) \<noteq> Timeout"
  using assms by (rule tree_refinement)

theorem C2_tree_refinement_witness:
  "tree_shaped 3 [HArray [VRef 1, VRef 2, VRef 3], HObject [], HObject [], HRegExp ''/a/g''] (VRef 0)
   \<and> fst (safeStringify 3 [HArray [VRef 1, VRef 2, VRef 3], HObject [], HObject [], HRegExp ''/a/g'']
            (VRef 0))
       = Returns (RString (''[{},{},'' @ quote_json ''/a/g'' @ '']''))"
proof -
  let ?h = "[HArray [VRef 1, VRef 2, VRef 3], HObject [], HObject [], HRegExp ''/a/g'']"
  have t: "tree_shaped 3 ?h (VRef 0)"
    unfolding tree_shaped_def by code_simp
  have s: "spec_serialize False 3 ?h (VRef 0) = Returns (RString (''[{},{},'' @ quote_json ''/a/g'' @ '']''))"
    by code_simp
  from C2_tree_refinement[OF t] s t show ?thesis by simp
qed

text \<open>
  C9, as stated: the output holds the placeholder exactly once per cyclic edge. It fails
  on the code for \<^verbatim>\<open>v = {note: "[Circular Reference]"}\<close> with
  \<^verbatim>\<open>v.self = v\<close>: one cyclic edge, and the text occurs twice. It fails as well
  for \<^verbatim>\<open>v = {n: 1n}\<close> with \<^verbatim>\<open>v.self = v\<close>: the encoder rejects the
  BigInt, the call falls back on \<^verbatim>\<open>String(v)\<close>, and the text does not occur.
\<close>

theorem C9_count_differs:
  "walk 2 self_heap [] (VRef 0) = Some ([0], 1)
   \<and> fst (safeStringify 2 self_heap (VRef 0))
     = Returns (RString (''{'' @ quote_json ''note'' @ '':'' @ quote_json circular_placeholder
                           @ '','' @ quote_json ''self'' @ '':'' @ quote_json circular_placeholder
                           @ ''}''))
   \<and> occurrences circular_placeholder
        (''{'' @ quote_json ''note'' @ '':'' @ quote_json circular_placeholder
           @ '','' @ quote_json ''self'' @ '':'' @ quote_json circular_placeholder @ ''}'') = 2
   \<and> walk 2 [HObject [(''n'', VBigInt 1), (''self'', VRef 0)]] [] (VRef 0) = Some ([0], 1)
   \<and> safeStringify 2 [HObject [(''n'', VBigInt 1), (''self'', VRef 0)]] (VRef 0)
       = (Returns (RString ''[object Object]''), [TypeError])
   \<and> occurrences circular_placeholder ''[object Object]'' = 0"
  unfolding self_heap_def by code_simp

text \<open>
  C9, amended: \<^verbatim>\<open>safeStringify\<close> terminates on every value of every heap, cyclic
  or not (fuel beyond the number of heap cells is never used up, by the call or by the
  unfolding that stops at a cyclic edge). For every array or mapping whose unfolding
  enters no array, mapping or RegExp twice, and in which the encoder meets no BigInt and
  no key, string or text of a Date, a RegExp or a function that holds the placeholder,
  it returns, without a warning, a string in which the placeholder occurs exactly once
  per cyclic edge, an edge that leads back to a composite on the path from the root.
\<close>

theorem C9_cyclic_edges:
  "(length h < n \<longrightarrow> fst (safeStringify n h v) \<noteq> Timeout \<and> walk n h [] v \<noteq> None)
   \<and> (walk n h [] (VRef a) = Some (as, c) \<and> distinct as \<and> (\<forall>b \<in> set as. clean_at h b)
        \<and> is_composite h a
      \<longrightarrow> (\<exists>s. safeStringify n h (VRef a) = (Returns (RString s), [])
                \<and> occurrences circular_placeholder s = c))"
  using safeStringify_terminates[of h n v] walk_total[of "[]" h n v]
    cyclic_edge_count[of n h a as c]
  by auto

theorem C9_cyclic_edges_witness:
  "fst (safeStringify 4 mutual_heap (VRef 0)) \<noteq> Timeout
   \<and> walk 4 mutual_heap [] (VRef 0) = Some ([0, 1, 2], 2)
   \<and> safeStringify 4 mutual_heap (VRef 0)
       = (Returns (RString (''{'' @ quote_json ''b'' @ '':{'' @ quote_json ''a'' @ '':''
                             @ quote_json circular_placeholder @ '','' @ quote_json ''list''
                             @ '':[1,'' @ quote_json circular_placeholder @ '']}}'')), [])
   \<and> occurrences circular_placeholder
        (''{'' @ quote_json ''b'' @ '':{'' @ quote_json ''a'' @ '':''
           @ quote_json circular_placeholder @ '','' @ quote_json ''list''
           @ '':[1,'' @ quote_json circular_placeholder @ '']}}'') = 2
   \<and> walk 3 bracket_heap [] (VRef 0) = Some ([0, 1], 1)
   \<and> safeStringify 3 bracket_heap (VRef 0)
       = (Returns (RString (''{'' @ quote_json ''list'' @ '':'' @ quote_json ''[1]'' @ '',''
                             @ quote_json ''re'' @ '':'' @ quote_json ''/[a-z]/'' @ '',''
                             @ quote_json ''self'' @ '':'' @ quote_json circular_placeholder
                             @ ''}'')), [])
   \<and> occurrences circular_placeholder
        (''{'' @ quote_json ''list'' @ '':'' @ quote_json ''[1]'' @ '',''
           @ quote_json ''re'' @ '':'' @ quote_json ''/[a-z]/'' @ '',''
           @ quote_json ''self'' @ '':'' @ quote_json circular_placeholder @ ''}'') = 1"
proof -
  let ?out = "''{'' @ quote_json ''b'' @ '':{'' @ quote_json ''a'' @ '':''
                @ quote_json circular_placeholder @ '','' @ quote_json ''list''
                @ '':[1,'' @ quote_json circular_placeholder @ '']}}''"
  let ?outb = "''{'' @ quote_json ''list'' @ '':'' @ quote_json ''[1]'' @ '',''
                 @ quote_json ''re'' @ '':'' @ quote_json ''/[a-z]/'' @ '',''
                 @ quote_json ''self'' @ '':'' @ quote_json circular_placeholder @ ''}''"
  note T = C9_cyclic_edges[where h = mutual_heap and n = 4 and v = "VRef 0" and a = 0
             and as = "[0, 1, 2]" and c = 2]
  have l: "length mutual_heap < 4" by (simp add: mutual_heap_def)
  have 1: "fst (safeStringify 4 mutual_heap (VRef 0)) \<noteq> Timeout
           \<and> walk 4 mutual_heap [] (VRef 0) \<noteq> None"
    by (rule mp[OF T[THEN conjunct1] l])
  have w: "walk 4 mutual_heap [] (VRef 0) = Some ([0, 1, 2], 2)"
    unfolding mutual_heap_def by code_simp
  have cl: "\<forall>b \<in> set [0, 1, 2]. clean_at mutual_heap b"
    by (simp add: mutual_heap_def clean_at_def clean_val_def deref_def circular_placeholder_def)
  have comp: "is_composite mutual_heap 0"
    by (simp add: mutual_heap_def is_composite_def deref_def)
  have H: "walk 4 mutual_heap [] (VRef 0) = Some ([0, 1, 2], 2) \<and> distinct [0::nat, 1, 2]
        \<and> (\<forall>b \<in> set [0, 1, 2]. clean_at mutual_heap b) \<and> is_composite mutual_heap 0"
    using w cl comp by simp
  from mp[OF T[THEN conjunct2] H] obtain s where
    s: "safeStringify 4 mutual_heap (VRef 0) = (Returns (RString s), [])"
       "occurrences circular_placeholder s = 2"
    by blast
  have out: "safeStringify 4 mutual_heap (VRef 0) = (Returns (RString ?out), [])"
    unfolding mutual_heap_def by code_simp
  from s(1) out have "s = ?out" by simp
  with s(2) have m: "occurrences circular_placeholder ?out = 2" by simp
  note B = C9_cyclic_edges[where h = bracket_heap and n = 3 and v = "VRef 0" and a = 0
             and as = "[0, 1]" and c = 1]
  have wb: "walk 3 bracket_heap [] (VRef 0) = Some ([0, 1], 1)"
    unfolding bracket_heap_def by code_simp
  have clb: "\<forall>b \<in> set [0, 1]. clean_at bracket_heap b"
    by (simp add: bracket_heap_def clean_at_def clean_val_def deref_def circular_placeholder_def)
  have compb: "is_composite bracket_heap 0"
    by (simp add: bracket_heap_def is_composite_def deref_def)
  have HB: "walk 3 bracket_heap [] (VRef 0) = Some ([0, 1], 1) \<and> distinct [0::nat, 1]
        \<and> (\<forall>b \<in> set [0, 1]. clean_at bracket_heap b) \<and> is_composite bracket_heap 0"
    using wb clb compb by simp
  from mp[OF B[THEN conjunct2] HB] obtain sb where
    sb: "safeStringify 3 bracket_heap (VRef 0) = (Returns (RString sb), [])"
        "occurrences circular_placeholder sb = 1"
    by blast
  have outb: "safeStringify 3 bracket_heap (VRef 0) = (Returns (RString ?outb), [])"
    unfolding bracket_heap_def by code_simp
  from sb(1) outb have "sb = ?outb" by simp
  with sb(2) have b: "occurrences circular_placeholder ?outb = 1" by simp
  from 1 w out m wb outb b show ?thesis by simp
qed

text \<open>
  The example of the README, \<^verbatim>\<open>obj = {name: "John"}\<close> with
  \<^verbatim>\<open>obj.self = obj\<close>: one cyclic edge, one placeholder.
\<close>

lemma readme_example:
  "walk 2 readme_heap [] (VRef 0) = Some ([0], 1)
   \<and> safeStringify 2 readme_heap (VRef 0)
       = (Returns (RString (''{'' @ quote_json ''name'' @ '':'' @ quote_json ''John'' @ '',''
                             @ quote_json ''self'' @ '':'' @ quote_json circular_placeholder
                             @ ''}'')), [])"
  unfolding readme_heap_def by code_simp

section \<open>Properties of parseContent\<close>

subsection \<open>JSON.parse: consumed input and fuel\<close>

lemma skip_ws_length: "length (skip_ws s) \<le> length s"
  by (induction s) auto

lemma parse_chars_consumes: "parse_chars cs = Some (str, rest) \<Longrightarrow> length rest < length cs"
proof (induction cs arbitrary: str rule: parse_chars.induct)
  case 1
  then show ?case by simp
next
  case (2 c cs)
  show ?case
  proof (cases "c = dq")
    case True
    with "2.prems" show ?thesis by simp
  next
    case nq: False
    show ?thesis
    proof (cases "c = bsl")
      case True
      with nq "2.prems" obtain e r ch str' where
        cs: "cs = e # r" and u: "unescape e = Some ch" and p: "parse_chars r = Some (str', rest)"
        by (auto split: list.splits option.splits)
      from "2.IH"(1)[OF nq True cs u p] cs show ?thesis by simp
    next
      case False
      with nq "2.prems" obtain str' where
        c: "\<not> of_char c < (32 :: nat)" and p: "parse_chars cs = Some (str', rest)"
        by (auto split: if_splits option.splits)
      from "2.IH"(2)[OF nq False c p] show ?thesis by simp
    qed
  qed
qed

lemma parse_number_consumes: "parse_number s = Some (i, rest) \<Longrightarrow> length rest < length s"
proof -
  assume a: "parse_number s = Some (i, rest)"
  define s1 where "s1 = (if (case s of c # cs \<Rightarrow> c = CHR ''-'' | [] \<Rightarrow> False) then tl s else s)"
  from a have ne: "takeWhile is_digit s1 \<noteq> []" and r: "rest = dropWhile is_digit s1"
    by (auto simp: parse_number_def s1_def Let_def split: if_splits)
  have "length (takeWhile is_digit s1) + length (dropWhile is_digit s1) = length s1"
    by (metis length_append takeWhile_dropWhile_id)
  with ne have "length (dropWhile is_digit s1) < length s1"
    by (cases "takeWhile is_digit s1") auto
  moreover have "length s1 \<le> length s" by (simp add: s1_def)
  ultimately show ?thesis using r by simp
qed


lemma after_skip:
  assumes "skip_ws cs = d # r"
  shows "length r < length cs"
  using skip_ws_length[of cs] assms by simp

lemma parse_value_step:
  assumes M: "\<forall>acc s kvs rest. parse_members n acc s = Some (kvs, rest) \<longrightarrow> length rest < length s"
    and E: "\<forall>acc s xs rest. parse_elements n acc s = Some (xs, rest) \<longrightarrow> length rest < length s"
    and p: "parse_value (Suc n) s = Some (x, rest)"
  shows "length rest < length s"
proof (cases s)
  case Nil
  with p show ?thesis by simp
next
  case (Cons c cs)
  show ?thesis
  proof (cases "c = CHR ''{''")
    case True
    show ?thesis
    proof (cases "skip_ws cs")
      case Nil
      with p Cons True show ?thesis by simp
    next
      case sk: (Cons d r)
      show ?thesis
      proof (cases "d = CHR ''}''")
        case True
        with p Cons \<open>c = CHR ''{''\<close> sk have "rest = r" by simp
        with after_skip[OF sk] Cons show ?thesis by simp
      next
        case False
        with p Cons \<open>c = CHR ''{''\<close> sk obtain kvs where
          "parse_members n [] (d # r) = Some (kvs, rest)"
          by (auto split: option.splits)
        from M[rule_format, OF this] after_skip[OF sk] Cons show ?thesis by simp
      qed
    qed
  next
    case nb: False
    show ?thesis
    proof (cases "c = CHR ''[''")
      case True
      show ?thesis
      proof (cases "skip_ws cs")
        case Nil
        with p Cons nb True show ?thesis by simp
      next
        case sk: (Cons d r)
        show ?thesis
        proof (cases "d = CHR '']''")
          case True
          with p Cons nb \<open>c = CHR ''[''\<close> sk have "rest = r" by simp
          with after_skip[OF sk] Cons show ?thesis by simp
        next
          case False
          with p Cons nb \<open>c = CHR ''[''\<close> sk obtain xs where
            "parse_elements n [] (d # r) = Some (xs, rest)"
            by (auto split: option.splits)
          from E[rule_format, OF this] after_skip[OF sk] Cons show ?thesis by simp
        qed
      qed
    next
      case na: False
      show ?thesis
      proof (cases "c = dq")
        case True
        with p Cons nb na obtain str where "parse_chars cs = Some (str, rest)"
          by (auto split: option.splits)
        from parse_chars_consumes[OF this] Cons show ?thesis by simp
      next
        case nq: False
        have lit: "prefix lit s \<Longrightarrow> lit \<noteq> [] \<Longrightarrow> length (drop (length lit) s) < length s" for lit
          by (auto simp: prefix_def)
        from p Cons nb na nq consider
            "prefix ''true'' s" "rest = drop 4 s"
          | "prefix ''false'' s" "rest = drop 5 s"
          | "prefix ''null'' s" "rest = drop 4 s"
          | i where "parse_number s = Some (i, rest)"
          by (auto split: if_splits option.splits)
        then show ?thesis
        proof cases
          case 1
          with lit[of "''true''"] show ?thesis by simp
        next
          case 2
          with lit[of "''false''"] show ?thesis by simp
        next
          case 3
          with lit[of "''null''"] show ?thesis by simp
        next
          case 4
          then show ?thesis by (rule parse_number_consumes)
        qed
      qed
    qed
  qed
qed

lemma parse_elements_step:
  assumes V: "\<forall>s x rest. parse_value n s = Some (x, rest) \<longrightarrow> length rest < length s"
    and E: "\<forall>acc s xs rest. parse_elements n acc s = Some (xs, rest) \<longrightarrow> length rest < length s"
    and p: "parse_elements (Suc n) acc s = Some (xs, rest)"
  shows "length rest < length s"
proof -
  from p obtain x r1 where v: "parse_value n s = Some (x, r1)"
    by (auto split: option.splits)
  from p v obtain d r where sk: "skip_ws r1 = d # r"
    by (auto split: list.splits)
  from V[rule_format, OF v] after_skip[OF sk] have r: "length r < length s" by simp
  show ?thesis
  proof (cases "d = CHR '']''")
    case True
    with p v sk have "rest = r" by simp
    with r show ?thesis by simp
  next
    case False
    with p v sk have "parse_elements n (acc @ [x]) (skip_ws r) = Some (xs, rest)"
      by (auto split: if_splits)
    from E[rule_format, OF this] skip_ws_length[of r] r show ?thesis by simp
  qed
qed

lemma parse_members_step:
  assumes V: "\<forall>s x rest. parse_value n s = Some (x, rest) \<longrightarrow> length rest < length s"
    and M: "\<forall>acc s kvs rest. parse_members n acc s = Some (kvs, rest) \<longrightarrow> length rest < length s"
    and p: "parse_members (Suc n) acc s = Some (kvs, rest)"
  shows "length rest < length s"
proof -
  from p obtain cs where s: "s = dq # cs"
    by (auto split: list.splits if_splits)
  from p s obtain k r1 where k: "parse_chars cs = Some (k, r1)"
    by (auto split: option.splits)
  from p s k obtain r2 where c: "skip_ws r1 = CHR '':'' # r2"
    by (auto split: list.splits if_splits)
  from p s k c obtain x r3 where v: "parse_value n (skip_ws r2) = Some (x, r3)"
    by (auto split: option.splits)
  from p s k c v obtain d r where sk: "skip_ws r3 = d # r"
    by (auto split: list.splits)
  from parse_chars_consumes[OF k] after_skip[OF c] V[rule_format, OF v] skip_ws_length[of r2] after_skip[OF sk] s
  have r: "length r < length s" by simp
  show ?thesis
  proof (cases "d = CHR ''}''")
    case True
    with p s k c v sk have "rest = r" by simp
    with r show ?thesis by simp
  next
    case False
    with p s k c v sk have "parse_members n (put_member k x acc) (skip_ws r) = Some (kvs, rest)"
      by (auto split: if_splits)
    from M[rule_format, OF this] skip_ws_length[of r] r show ?thesis by simp
  qed
qed

lemma parse_consumes:
  "(\<forall>s x rest. parse_value n s = Some (x, rest) \<longrightarrow> length rest < length s)
   \<and> (\<forall>acc s xs rest. parse_elements n acc s = Some (xs, rest) \<longrightarrow> length rest < length s)
   \<and> (\<forall>acc s kvs rest. parse_members n acc s = Some (kvs, rest) \<longrightarrow> length rest < length s)"
proof (induction n)
  case 0
  then show ?case by simp
next
  case (Suc n)
  then have V: "\<forall>s x rest. parse_value n s = Some (x, rest) \<longrightarrow> length rest < length s"
    and E: "\<forall>acc s xs rest. parse_elements n acc s = Some (xs, rest) \<longrightarrow> length rest < length s"
    and M: "\<forall>acc s kvs rest. parse_members n acc s = Some (kvs, rest) \<longrightarrow> length rest < length s"
    by blast+
  have "length rest < length s" if "parse_value (Suc n) s = Some (x, rest)" for s x rest
    using M E that by (rule parse_value_step)
  moreover
  have "length rest < length s" if "parse_elements (Suc n) acc s = Some (xs, rest)" for acc s xs rest
    using V E that by (rule parse_elements_step)
  moreover
  have "length rest < length s" if "parse_members (Suc n) acc s = Some (kvs, rest)" for acc s kvs rest
    using V M that by (rule parse_members_step)
  ultimately show ?case by blast
qed


lemma parse_value_fuel_step:
  assumes E: "\<forall>acc s. 2 * length s + 1 < n \<longrightarrow> parse_elements (Suc n) acc s = parse_elements n acc s"
    and M: "\<forall>acc s. 2 * length s + 1 < n \<longrightarrow> parse_members (Suc n) acc s = parse_members n acc s"
    and l: "2 * length s < Suc n"
  shows "parse_value (Suc (Suc n)) s = parse_value (Suc n) s"
proof (cases s)
  case Nil
  then show ?thesis by simp
next
  case (Cons c cs)
  have short: "2 * length (d # r) + 1 < n" if "skip_ws cs = d # r" for d r
    using skip_ws_length[of cs] that l Cons by simp
  have m: "parse_members (Suc n) [] (d # r) = parse_members n [] (d # r)" if "skip_ws cs = d # r" for d r
    using M short[OF that] by blast
  have e: "parse_elements (Suc n) [] (d # r) = parse_elements n [] (d # r)" if "skip_ws cs = d # r" for d r
    using E short[OF that] by blast
  show ?thesis
  proof (cases "skip_ws cs")
    case Nil
    then show ?thesis using Cons by simp
  next
    case sk: (Cons d r)
    show ?thesis
      using Cons sk m[OF sk] e[OF sk]
      by (auto simp del: parse_members.simps parse_elements.simps)
  qed
qed

lemma parse_elements_fuel_step:
  assumes V: "\<forall>s. 2 * length s < n \<longrightarrow> parse_value (Suc n) s = parse_value n s"
    and E: "\<forall>acc s. 2 * length s + 1 < n \<longrightarrow> parse_elements (Suc n) acc s = parse_elements n acc s"
    and l: "2 * length s + 1 < Suc n"
  shows "parse_elements (Suc (Suc n)) acc s = parse_elements (Suc n) acc s"
proof -
  from V l have v: "parse_value (Suc n) s = parse_value n s" by simp
  show ?thesis
  proof (cases "parse_value n s")
    case None
    with v show ?thesis
      by (simp add: parse_elements.simps(2)[of "Suc n" acc s] parse_elements.simps(2)[of n acc s]
               del: parse_value.simps parse_elements.simps)
  next
    case (Some p)
    obtain x r1 where p: "p = (x, r1)" by (cases p)
    from parse_consumes[of n] Some p have c: "length r1 < length s" by blast
    show ?thesis
    proof (cases "skip_ws r1")
      case Nil
      with v Some p show ?thesis
        by (simp add: parse_elements.simps(2)[of "Suc n" acc s] parse_elements.simps(2)[of n acc s]
                 del: parse_value.simps parse_elements.simps)
    next
      case (Cons d r)
      from after_skip[OF Cons] skip_ws_length[of r] c l
      have "2 * length (skip_ws r) + 1 < n" by simp
      with E have "parse_elements (Suc n) (acc @ [x]) (skip_ws r) = parse_elements n (acc @ [x]) (skip_ws r)"
        by blast
      with v Some p Cons show ?thesis
        by (simp add: parse_elements.simps(2)[of "Suc n" acc s] parse_elements.simps(2)[of n acc s]
                 del: parse_value.simps parse_elements.simps)
    qed
  qed
qed

lemma parse_members_fuel_step:
  assumes V: "\<forall>s. 2 * length s < n \<longrightarrow> parse_value (Suc n) s = parse_value n s"
    and M: "\<forall>acc s. 2 * length s + 1 < n \<longrightarrow> parse_members (Suc n) acc s = parse_members n acc s"
    and l: "2 * length s + 1 < Suc n"
  shows "parse_members (Suc (Suc n)) acc s = parse_members (Suc n) acc s"
proof (cases s)
  case Nil
  then show ?thesis by simp
next
  case (Cons q cs)
  note unfold = parse_members.simps(2)[of "Suc n" acc "q # cs"] parse_members.simps(2)[of n acc "q # cs"]
  show ?thesis
  proof (cases "parse_chars cs")
    case None
    with Cons show ?thesis by (simp add: unfold del: parse_value.simps parse_members.simps)
  next
    case (Some p)
    obtain k r1 where p: "p = (k, r1)" by (cases p)
    from parse_chars_consumes[of cs k r1] Some p have c1: "length r1 < length cs" by simp
    show ?thesis
    proof (cases "skip_ws r1")
      case Nil
      with Cons Some p show ?thesis by (simp add: unfold del: parse_value.simps parse_members.simps)
    next
      case colon: (Cons cl r2)
      from after_skip[OF colon] skip_ws_length[of r2] c1 Cons l
      have l2: "2 * length (skip_ws r2) < n" by simp
      with V have v: "parse_value (Suc n) (skip_ws r2) = parse_value n (skip_ws r2)" by blast
      show ?thesis
      proof (cases "parse_value n (skip_ws r2)")
        case None
        with v Cons Some p colon show ?thesis
          by (simp add: unfold del: parse_value.simps parse_members.simps)
      next
        case val: (Some pv)
        obtain x r3 where pv: "pv = (x, r3)" by (cases pv)
        from parse_consumes[of n] val pv have c3: "length r3 < length (skip_ws r2)" by blast
        show ?thesis
        proof (cases "skip_ws r3")
          case Nil
          with v val pv Cons Some p colon show ?thesis
            by (simp add: unfold del: parse_value.simps parse_members.simps)
        next
          case sk: (Cons d r)
          from after_skip[OF sk] skip_ws_length[of r] c3 l2
          have "2 * length (skip_ws r) + 1 < n" by simp
          with M have "parse_members (Suc n) (put_member k x acc) (skip_ws r)
                         = parse_members n (put_member k x acc) (skip_ws r)"
            by blast
          with v val pv Cons Some p colon sk show ?thesis
            by (simp add: unfold del: parse_value.simps parse_members.simps)
        qed
      qed
    qed
  qed
qed

lemma parse_fuel_Suc:
  "(\<forall>s. 2 * length s < n \<longrightarrow> parse_value (Suc n) s = parse_value n s)
   \<and> (\<forall>acc s. 2 * length s + 1 < n \<longrightarrow> parse_elements (Suc n) acc s = parse_elements n acc s)
   \<and> (\<forall>acc s. 2 * length s + 1 < n \<longrightarrow> parse_members (Suc n) acc s = parse_members n acc s)"
proof (induction n)
  case 0
  then show ?case by simp
next
  case (Suc n)
  then have V: "\<forall>s. 2 * length s < n \<longrightarrow> parse_value (Suc n) s = parse_value n s"
    and E: "\<forall>acc s. 2 * length s + 1 < n \<longrightarrow> parse_elements (Suc n) acc s = parse_elements n acc s"
    and M: "\<forall>acc s. 2 * length s + 1 < n \<longrightarrow> parse_members (Suc n) acc s = parse_members n acc s"
    by blast+
  have "parse_value (Suc (Suc n)) s = parse_value (Suc n) s" if "2 * length s < Suc n" for s
    using E M that by (rule parse_value_fuel_step)
  moreover
  have "parse_elements (Suc (Suc n)) acc s = parse_elements (Suc n) acc s"
    if "2 * length s + 1 < Suc n" for acc s
    using V E that by (rule parse_elements_fuel_step)
  moreover
  have "parse_members (Suc (Suc n)) acc s = parse_members (Suc n) acc s"
    if "2 * length s + 1 < Suc n" for acc s
    using V M that by (rule parse_members_fuel_step)
  ultimately show ?case by blast
qed

lemma parse_value_more_fuel:
  assumes "2 * length s < n"
  shows "parse_value (n + k) s = parse_value n s"
proof (induction k)
  case 0
  show ?case by simp
next
  case (Suc k)
  from assms have "2 * length s < n + k" by simp
  with parse_fuel_Suc[of "n + k"] have "parse_value (Suc (n + k)) s = parse_value (n + k) s"
    by blast
  with Suc show ?case by simp
qed

text \<open>The fuel of \<open>JSON_parse\<close> is enough: more fuel gives the same result.\<close>

lemma JSON_parse_fuel:
  "parse_value (2 * length s + 2 + k) (skip_ws s) = parse_value (2 * length s + 2) (skip_ws s)"
proof -
  have "2 * length (skip_ws s) < 2 * length s + 2"
    using skip_ws_length[of s] by simp
  then show ?thesis by (rule parse_value_more_fuel)
qed

subsection \<open>The merge of the rule tables\<close>

lemma map_of_inj:
  assumes "distinct (map snd tbl)" "map_of tbl k = Some a" "map_of tbl k' = Some a"
  shows "k = k'"
  using assms
proof (induction tbl)
  case Nil then show ?case by simp
next
  case (Cons p tbl)
  then show ?case
    by (cases p) (auto split: if_splits dest!: map_of_SomeD intro: rev_image_eqI)
qed

lemma tbl_ok_no_inherited:
  assumes "tbl_ok n (tbl, st)" "inherited_key k"
  shows "map_of tbl k = None"
proof (cases "map_of tbl k")
  case None then show ?thesis .
next
  case (Some a)
  then have "(k, a) \<in> set tbl" by (rule map_of_SomeD)
  with assms show ?thesis by (auto simp: tbl_ok_def)
qed

lemma merge_entry_inherited:
  assumes "tbl_ok n (tbl, st)" "inherited_key k"
  shows "merge_entry (k, e) (tbl, st) = (if e = OtherEntry then Inr (tbl, st) else Inl TypeError)"
proof -
  from assms have "map_of tbl k = None" by (rule tbl_ok_no_inherited)
  with assms(2) obtain len where "lookup_slot tbl k = Inherited len"
    by (auto simp: lookup_slot_def inherited_key_def)
  then show ?thesis
    by (cases e) (simp_all add: merge_entry_def unshift_def)
qed

lemma merge_entry_own:
  assumes ok: "tbl_ok n (tbl, st)" and own: "map_of tbl k = Some a"
  shows "merge_entry (k, e) (tbl, st) = Inr (tbl, st[a := entry_rules e @ fetch st a])"
proof -
  from own have "(k, a) \<in> set tbl" by (rule map_of_SomeD)
  with ok have a: "a < length st" by (auto simp: tbl_ok_def)
  have l: "lookup_slot tbl k = OwnArray a" using own by (simp add: lookup_slot_def)
  show ?thesis
    using a by (cases e) (simp_all add: merge_entry_def unshift_def l entry_rules_def fetch_def)
qed

lemma merge_entry_missing:
  assumes none: "map_of tbl k = None" and ni: "\<not> inherited_key k"
  shows "merge_entry (k, e) (tbl, st) = Inr (tbl @ [(k, length st)], st @ [entry_rules e])"
proof -
  have l: "lookup_slot tbl k = Missing"
    using none ni by (simp add: lookup_slot_def inherited_key_def)
  have l': "lookup_slot (tbl @ [(k, length st)]) k = OwnArray (length st)"
    using none by (simp add: lookup_slot_def map_add_def)
  show ?thesis
    by (cases e) (simp_all add: merge_entry_def unshift_def l l' entry_rules_def fetch_def)
qed

lemma own_step:
  assumes ok: "tbl_ok n (tbl, st)" and own: "map_of tbl k = Some a"
  shows "tbl_ok n (tbl, st[a := new @ fetch st a])"
    and "rules_at (tbl, st[a := new @ fetch st a]) k' = (if k = k' then new else []) @ rules_at (tbl, st) k'"
    and "take n (st[a := new @ fetch st a]) = take n st"
proof -
  from own have mem: "(k, a) \<in> set tbl" by (rule map_of_SomeD)
  with ok have a: "a < length st" "n \<le> a" by (auto simp: tbl_ok_def)
  show "tbl_ok n (tbl, st[a := new @ fetch st a])"
    using ok by (simp add: tbl_ok_def)
  show "take n (st[a := new @ fetch st a]) = take n st"
    using a by simp
  show "rules_at (tbl, st[a := new @ fetch st a]) k' = (if k = k' then new else []) @ rules_at (tbl, st) k'"
  proof (cases "k = k'")
    case True
    with own a show ?thesis by (simp add: rules_at_def fetch_def)
  next
    case False
    show ?thesis
    proof (cases "map_of tbl k'")
      case None
      with False show ?thesis by (simp add: rules_at_def)
    next
      case (Some b)
      have "b \<noteq> a"
      proof
        assume "b = a"
        with Some own ok have "k' = k" by (auto simp: tbl_ok_def intro: map_of_inj)
        with False show False by simp
      qed
      with Some False show ?thesis by (simp add: rules_at_def fetch_def)
    qed
  qed
qed

lemma missing_step:
  assumes ok: "tbl_ok n (tbl, st)" and none: "map_of tbl k = None" and ni: "\<not> inherited_key k"
  shows "tbl_ok n (tbl @ [(k, length st)], st @ [new])"
    and "rules_at (tbl @ [(k, length st)], st @ [new]) k' = (if k = k' then new else []) @ rules_at (tbl, st) k'"
    and "take n (st @ [new]) = take n st"
proof -
  have bound: "\<forall>ka \<in> set tbl. n \<le> snd ka \<and> snd ka < length st \<and> \<not> inherited_key (fst ka)"
    and n: "n \<le> length st"
    using ok by (simp_all add: tbl_ok_def)
  then have lnot: "length st \<notin> snd ` set tbl" by auto
  show "tbl_ok n (tbl @ [(k, length st)], st @ [new])"
    using ok lnot ni bound by (auto simp: tbl_ok_def)
  show "take n (st @ [new]) = take n st" using n by simp
  show "rules_at (tbl @ [(k, length st)], st @ [new]) k' = (if k = k' then new else []) @ rules_at (tbl, st) k'"
  proof (cases "map_of tbl k'")
    case None
    then show ?thesis by (simp add: rules_at_def map_add_def fetch_def)
  next
    case (Some b)
    then have "(k', b) \<in> set tbl" by (rule map_of_SomeD)
    with bound have "b < length st" by auto
    moreover from Some none have "k \<noteq> k'" by auto
    ultimately show ?thesis using Some by (simp add: rules_at_def map_add_def fetch_def nth_append)
  qed
qed

lemma merge_entry_ok:
  assumes ok: "tbl_ok n ts" and safe: "\<not> (inherited_key (fst p) \<and> snd p \<noteq> OtherEntry)"
  shows "\<exists>ts'. merge_entry p ts = Inr ts' \<and> tbl_ok n ts'
           \<and> (\<forall>k. rules_at ts' k = (if fst p = k then entry_rules (snd p) else []) @ rules_at ts k)
           \<and> take n (snd ts') = take n (snd ts)"
proof -
  obtain k e where p: "p = (k, e)" by (cases p)
  obtain tbl st where ts: "ts = (tbl, st)" by (cases ts)
  show ?thesis
  proof (cases "inherited_key k")
    case True
    with safe p have e: "e = OtherEntry" by simp
    from ok ts True have "map_of tbl k = None" by (auto intro: tbl_ok_no_inherited)
    then show ?thesis
      using merge_entry_inherited[of n tbl st k e] ok True e p ts
      by (simp add: entry_rules_def)
  next
    case False
    show ?thesis
    proof (cases "map_of tbl k")
      case None
      show ?thesis
        using merge_entry_missing[OF None False, of e st]
          missing_step[OF ok[unfolded ts] None False, of "entry_rules e"] p ts
        by simp
    next
      case (Some a)
      show ?thesis
        using merge_entry_own[OF ok[unfolded ts] Some, of e]
          own_step[OF ok[unfolded ts] Some, of "entry_rules e"] p ts
        by simp
    qed
  qed
qed

lemma merge_entry_fails:
  assumes ok: "tbl_ok n ts" and bad: "inherited_key (fst p) \<and> snd p \<noteq> OtherEntry"
  shows "merge_entry p ts = Inl TypeError"
  using merge_entry_inherited[of n "fst ts" "snd ts" "fst p" "snd p"] ok bad by simp

lemma merge_all_ok:
  assumes "tbl_ok n ts" "\<not> merge_fails ps"
  shows "\<exists>ts'. merge_all ps ts = Inr ts' \<and> tbl_ok n ts'
           \<and> (\<forall>k. rules_at ts' k = custom_rules ps k @ rules_at ts k)
           \<and> take n (snd ts') = take n (snd ts)"
  using assms
proof (induction ps arbitrary: ts)
  case Nil
  then show ?case by simp
next
  case (Cons p ps)
  from Cons.prems(2) have safe: "\<not> (inherited_key (fst p) \<and> snd p \<noteq> OtherEntry)"
    and rest: "\<not> merge_fails ps"
    by (auto simp: merge_fails_def)
  from merge_entry_ok[OF Cons.prems(1) safe] obtain ts1 where
    1: "merge_entry p ts = Inr ts1" "tbl_ok n ts1"
       "\<forall>k. rules_at ts1 k = (if fst p = k then entry_rules (snd p) else []) @ rules_at ts k"
       "take n (snd ts1) = take n (snd ts)"
    by blast
  from Cons.IH[OF 1(2) rest] obtain ts2 where
    2: "merge_all ps ts1 = Inr ts2" "tbl_ok n ts2"
       "\<forall>k. rules_at ts2 k = custom_rules ps k @ rules_at ts1 k"
       "take n (snd ts2) = take n (snd ts1)"
    by blast
  show ?case using 1 2 by simp
qed

lemma merge_all_fails:
  assumes "tbl_ok n ts" "merge_fails ps"
  shows "merge_all ps ts = Inl TypeError"
  using assms
proof (induction ps arbitrary: ts)
  case Nil
  then show ?case by (simp add: merge_fails_def)
next
  case (Cons p ps)
  show ?case
  proof (cases "inherited_key (fst p) \<and> snd p \<noteq> OtherEntry")
    case True
    then show ?thesis using merge_entry_fails[OF Cons.prems(1)] by simp
  next
    case False
    with Cons.prems(2) have rest: "merge_fails ps" by (auto simp: merge_fails_def)
    from merge_entry_ok[OF Cons.prems(1) False] obtain ts1 where
      1: "merge_entry p ts = Inr ts1" "tbl_ok n ts1" by blast
    with Cons.IH[OF 1(2) rest] show ?thesis by simp
  qed
qed

lemma defaults_ok: "tbl_ok (length st) (defaultParsers st)"
  by (simp add: tbl_ok_def defaultParsers_def inherited_key_def object_prototype_def)

lemma defaults_rules: "rules_at (defaultParsers st) k = default_rules k"
  by (simp add: rules_at_def defaultParsers_def default_rules_def fetch_def nth_append)

lemma effective_rules_eq:
  "fst (effective_rules st ps k) = rule_table ps k"
  and effective_rules_frame: "take (length st) (snd (effective_rules st ps k)) = st"
proof -
  have "fst (effective_rules st ps k) = rule_table ps k \<and> take (length st) (snd (effective_rules st ps k)) = st"
  proof (cases "merge_fails ps")
    case True
    from merge_all_fails[OF defaults_ok True, of st]
    show ?thesis using True
      by (simp add: effective_rules_def rule_table_def defaultParsers_def)
  next
    case False
    from merge_all_ok[OF defaults_ok False, of st] obtain tbl st' where
      m: "merge_all ps (defaultParsers st) = Inr (tbl, st')" and ok: "tbl_ok (length st) (tbl, st')"
      and r: "\<forall>k. rules_at (tbl, st') k = custom_rules ps k @ rules_at (defaultParsers st) k"
      and t: "take (length st) st' = take (length st) (snd (defaultParsers st))"
      by auto
    have t': "take (length st) st' = st" using t by (simp add: defaultParsers_def)
    show ?thesis
    proof (cases "object_prototype k")
      case None
      have "rules_at (tbl, st') k = custom_rules ps k @ default_rules k"
        using r by (simp add: defaults_rules)
      then show ?thesis using m False None t'
        by (auto simp: effective_rules_def rule_table_def lookup_slot_def rules_at_def
                 split: option.splits)
    next
      case (Some len)
      then have "inherited_key k" by (simp add: inherited_key_def)
      with ok have "map_of tbl k = None" by (rule tbl_ok_no_inherited)
      then show ?thesis using m False Some t'
        by (simp add: effective_rules_def rule_table_def lookup_slot_def)
    qed
  qed
  then show "fst (effective_rules st ps k) = rule_table ps k"
    and "take (length st) (snd (effective_rules st ps k)) = st" by simp_all
qed

subsection \<open>The call in terms of the rule table\<close>

lemma effective_rules_pair:
  "\<exists>st'. effective_rules st ps k = (rule_table ps k, st')"
  using effective_rules_eq[of st ps k] by (cases "effective_rules st ps k") simp

lemma parseContent_after:
  assumes "get_content (type_of r) (body r) = Inr content"
  shows "fst (parseContent st (Some r) ps callback)
           = (case rule_table ps (to_string (type_of r)) of
                Inl e \<Rightarrow> \<lparr>result = Inl e, calls = [], warnings = []\<rparr>
              | Inr tr \<Rightarrow>
                  if unconvertible (type_of r)
                  then \<lparr>result = Inl TypeError, calls = [], warnings = []\<rparr>
                  else apply_type_rules tr content callback)"
proof -
  obtain st' where e:
    "effective_rules st ps (to_string (type_of r)) = (rule_table ps (to_string (type_of r)), st')"
    using effective_rules_pair by blast
  show ?thesis
    using assms by (simp add: parseContent_def e split: sum.splits)
qed

lemma parseContent_rules:
  assumes "get_content (type_of r) (body r) = Inr content"
    and "rule_table ps (to_string (type_of r)) = Inr tr"
    and "\<not> unconvertible (type_of r)"
  shows "fst (parseContent st (Some r) ps callback) = apply_type_rules tr content callback"
  using assms by (simp add: parseContent_after)

lemma parseContent_failed:
  assumes "get_content (type_of r) (body r) = Inl err"
  shows "fst (parseContent st (Some r) ps callback)
           = finish callback [ArgValue JNull, ArgError (ParseFailed err)] (Inl (ParseFailed err)) []"
  using assms by (simp add: parseContent_def)

lemma parseContent_store_independent:
  "fst (parseContent st response ps callback) = fst (parseContent [] response ps callback)"
proof (cases response)
  case None
  then show ?thesis by (simp add: parseContent_def)
next
  case (Some r)
  show ?thesis
  proof (cases "get_content (type_of r) (body r)")
    case (Inl err)
    then show ?thesis using Some by (simp add: parseContent_failed)
  next
    case (Inr content)
    then show ?thesis using Some by (simp add: parseContent_after)
  qed
qed

lemma parseContent_frame:
  "take (length st) (snd (parseContent st response ps callback)) = st"
proof (cases response)
  case None
  then show ?thesis by (simp add: parseContent_def)
next
  case (Some r)
  obtain tr st' where e: "effective_rules st ps (to_string (type_of r)) = (tr, st')"
    by (cases "effective_rules st ps (to_string (type_of r))")
  then have "take (length st) st' = st"
    using effective_rules_frame[of st ps "to_string (type_of r)"] by simp
  then show ?thesis
    using Some e by (simp add: parseContent_def split: sum.splits)
qed

lemma run_calls_independent:
  "run_calls st cs = map (\<lambda>c. fst (parseContent [] (fst c) (fst (snd c)) (snd (snd c)))) cs"
proof (induction cs arbitrary: st)
  case Nil
  then show ?case by simp
next
  case (Cons c cs)
  obtain r st' where p: "parseContent st (fst c) (fst (snd c)) (snd (snd c)) = (r, st')"
    by (cases "parseContent st (fst c) (fst (snd c)) (snd (snd c))")
  have "r = fst (parseContent [] (fst c) (fst (snd c)) (snd (snd c)))"
    using parseContent_store_independent[of st "fst c" "fst (snd c)" "snd (snd c)"] p by simp
  then show ?case using p Cons.IH[of st'] by simp
qed

subsection \<open>The loop over the rules\<close>

lemma run_rules_warned:
  "run_rules rs content w = (fst (run_rules rs content []), w @ snd (run_rules rs content []))"
proof (induction rs arbitrary: w)
  case Nil
  then show ?case by simp
next
  case (Cons ro rs)
  show ?case
  proof (cases "try_rule ro content")
    case (Inl err)
    show ?thesis
    proof (cases "message_error err")
      case None
      with Inl Cons.IH[of "w @ [err]"] Cons.IH[of "[err]"] show ?thesis by simp
    next
      case (Some e)
      with Inl show ?thesis by simp
    qed
  next
    case (Inr r)
    with Cons.IH[of w] show ?thesis by (cases r) simp_all
  qed
qed

lemma run_rules_fst: "fst (run_rules rs content w) = fst (run_rules rs content [])"
  using run_rules_warned[of rs content w] by simp

lemma run_rules_readable:
  assumes "\<forall>x \<in> set (thrown rs content). has_message x"
  shows "run_rules rs content w = (Inr (first_result rs content), w @ thrown rs content)"
  using assms
proof (induction rs arbitrary: w)
  case Nil
  then show ?case by simp
next
  case (Cons ro rs)
  show ?case
  proof (cases "try_rule ro content")
    case (Inl err)
    with Cons.prems have m: "message_error err = None"
      and rest: "\<forall>x \<in> set (thrown rs content). has_message x"
      by (simp_all add: has_message_def)
    from Cons.IH[OF rest, of "w @ [err]"] Inl m show ?thesis by simp
  next
    case (Inr p)
    show ?thesis
    proof (cases p)
      case None
      with Inr Cons.prems have "\<forall>x \<in> set (thrown rs content). has_message x" by simp
      from Cons.IH[OF this, of w] Inr None show ?thesis by simp
    next
      case (Some x)
      with Inr show ?thesis by simp
    qed
  qed
qed

lemma run_rules_unreadable:
  assumes "rs = pre @ ro # post"
    and "\<forall>x \<in> set (thrown pre content). has_message x" "first_result pre content = None"
    and "try_rule ro content = Inl err" "message_error err = Some e"
  shows "run_rules rs content w = (Inl e, w @ thrown pre content)"
  unfolding assms(1) using assms(2,3)
proof (induction pre arbitrary: w)
  case Nil
  then show ?case using assms(4,5) by simp
next
  case (Cons p pre)
  show ?case
  proof (cases "try_rule p content")
    case (Inl x)
    with Cons.prems have m: "message_error x = None"
      and rest: "\<forall>x \<in> set (thrown pre content). has_message x" "first_result pre content = None"
      by (simp_all add: has_message_def)
    from Cons.IH[OF rest, of "w @ [x]"] Inl m show ?thesis by simp
  next
    case (Inr q)
    show ?thesis
    proof (cases q)
      case None
      with Inr Cons.prems have "\<forall>x \<in> set (thrown pre content). has_message x"
        "first_result pre content = None" by simp_all
      from Cons.IH[OF this, of w] Inr None show ?thesis by simp
    next
      case (Some x)
      with Inr Cons.prems(2) show ?thesis by simp
    qed
  qed
qed

lemma first_result_skip_all:
  assumes "\<forall>p \<in> set pre. no_match p content"
  shows "first_result (pre @ rs) content = first_result rs content
         \<and> thrown (pre @ rs) content = thrown pre content @ thrown rs content
         \<and> first_result pre content = None"
  using assms
proof (induction pre)
  case Nil
  show ?case by simp
next
  case (Cons p pre)
  from Cons.prems have nm: "no_match p content" and rest: "\<forall>p \<in> set pre. no_match p content"
    by simp_all
  from nm have t: "(\<exists>err. try_rule p content = Inl err) \<or> try_rule p content = Inr None"
    by (auto simp: no_match_def try_rule_def split: sum.splits)
  with Cons.IH[OF rest] show ?case by auto
qed

lemma first_result_skip:
  assumes "\<forall>p \<in> set pre. no_match p content"
  shows "first_result (pre @ rs) content = first_result rs content"
    and "thrown (pre @ rs) content = thrown pre content @ thrown rs content"
    and "first_result pre content = None"
  using first_result_skip_all[OF assms] by simp_all

lemma first_result_match:
  assumes "matches ro content" "apply_parse (parse ro) content = Inr x"
  shows "first_result (ro # rest) content = Some x" and "thrown (ro # rest) content = []"
proof -
  from assms(1) obtain b where "rule ro content = Inr b" "truthy b"
    by (auto simp: matches_def split: sum.splits)
  with assms(2) have "try_rule ro content = Inr (Some x)" by (simp add: try_rule_def)
  then show "first_result (ro # rest) content = Some x" and "thrown (ro # rest) content = []"
    by simp_all
qed

lemma first_result_none:
  assumes "\<forall>ro \<in> set rs. matches ro content \<longrightarrow> (\<exists>err. apply_parse (parse ro) content = Inl err)"
  shows "first_result rs content = None"
  using assms
proof (induction rs)
  case Nil
  then show ?case by simp
next
  case (Cons ro rs)
  have "try_rule ro content \<noteq> Inr (Some x)" for x
    using Cons.prems by (auto simp: try_rule_def matches_def split: sum.splits if_splits)
  moreover from Cons have "first_result rs content = None" by simp
  ultimately show ?case by (auto split: sum.splits option.splits)
qed

subsection \<open>The callback\<close>

lemma finish_calls: "calls (finish (Some cb) args res w) = [args]"
  by (simp add: finish_def invoke_def split: option.splits)

lemma finish_no_callback: "finish None args res w = \<lparr>result = res, calls = [], warnings = w\<rparr>"
  by (simp add: finish_def invoke_def)



lemma JSON_parse_error: "JSON_parse s = Inl e \<Longrightarrow> e = SyntaxError"
  by (auto simp: JSON_parse_def split: option.splits if_splits prod.splits)

lemma default_rules_readable:
  assumes "ro \<in> set (default_rules k)" "try_rule ro content = Inl err"
  shows "has_message err"
proof -
  from assms(1) consider "ro = json_default" | "ro = identity_default"
    by (auto simp: default_rules_def split: if_splits)
  then show ?thesis
  proof cases
    case 1
    with assms(2) have "err = TypeError \<or> err = SyntaxError"
      by (auto simp: try_rule_def json_default_def always_def apply_parse_def
               dest: JSON_parse_error split: if_splits sum.splits)
    then show ?thesis by (auto simp: has_message_def message_error_def)
  next
    case 2
    with assms(2) show ?thesis
      by (simp add: try_rule_def identity_default_def always_def apply_parse_def)
  qed
qed

lemma custom_rules_inherited:
  assumes "\<not> merge_fails ps" "inherited_key k"
  shows "custom_rules ps k = []"
  using assms(1)
proof (induction ps)
  case Nil
  then show ?case by simp
next
  case (Cons p ps)
  then have "custom_rules ps k = []" by (simp add: merge_fails_def)
  moreover have "fst p = k \<longrightarrow> entry_rules (snd p) = []"
    using Cons.prems assms(2) by (auto simp: merge_fails_def entry_rules_def)
  ultimately show ?case by simp
qed

lemma default_rules_inherited: "inherited_key k \<Longrightarrow> default_rules k = []"
  by (auto simp: inherited_key_def object_prototype_def default_rules_def split: if_splits)


lemma apply_type_rules_calls:
  "calls (apply_type_rules tr content (Some cb)) = []
     \<or> (\<exists>v. calls (apply_type_rules tr content (Some cb)) = [[ArgValue v]]
            \<and> (cb [ArgValue v] = None \<longrightarrow> result (apply_type_rules tr content (Some cb)) = Inr v))"
  by (auto simp: apply_type_rules_def finish_def invoke_def Let_def
           split: type_rules.splits sum.splits prod.splits option.splits)

lemma apply_type_rules_returns:
  assumes "result (apply_type_rules tr content (Some cb)) = Inr v"
  shows "calls (apply_type_rules tr content (Some cb)) = [[ArgValue v]]"
  using assms
  by (auto simp: apply_type_rules_def finish_def invoke_def Let_def
           split: type_rules.splits sum.splits prod.splits option.splits if_splits)

subsection \<open>A call whose rules throw values with a message\<close>

lemma resolve_readable:
  assumes nm: "\<not> merge_fails ps" and ki: "\<not> uniterable_kind (to_string (type_of r))"
    and cv: "\<not> unconvertible (type_of r)"
    and g: "get_content (type_of r) (body r) = Inr c"
    and rd: "\<forall>x \<in> set (thrown (custom_rules ps (to_string (type_of r))
                                @ default_rules (to_string (type_of r))) c). has_message x"
  shows "fst (parseContent st (Some r) ps callback)
           = finish callback
               [ArgValue (resolved (custom_rules ps (to_string (type_of r))
                                      @ default_rules (to_string (type_of r))) c)]
               (Inr (resolved (custom_rules ps (to_string (type_of r))
                                 @ default_rules (to_string (type_of r))) c))
               (thrown (custom_rules ps (to_string (type_of r))
                          @ default_rules (to_string (type_of r))) c)"
proof -
  let ?k = "to_string (type_of r)"
  let ?rs = "custom_rules ps ?k @ default_rules ?k"
  show ?thesis
  proof (cases "object_prototype ?k")
    case None
    with nm have tbl: "rule_table ps ?k = Inr (RuleList ?rs)" by (simp add: rule_table_def)
    show ?thesis
    proof (cases "?rs = []")
      case True
      then have "apply_type_rules (RuleList ?rs) c callback
                   = finish callback [ArgValue c] (Inr c) []"
        by (simp add: apply_type_rules_def)
      moreover from True have "resolved ?rs c = c" "thrown ?rs c = []"
        by (simp_all add: resolved_def)
      ultimately show ?thesis
        by (simp only: parseContent_rules[OF g tbl cv])
    next
      case False
      then have "apply_type_rules (RuleList ?rs) c callback
                   = finish callback [ArgValue (resolved ?rs c)] (Inr (resolved ?rs c)) (thrown ?rs c)"
        using run_rules_readable[OF rd, of "[]"]
        by (simp add: apply_type_rules_def resolved_def Let_def)
      then show ?thesis
        by (simp only: parseContent_rules[OF g tbl cv])
    qed
  next
    case (Some len)
    with ki have len: "len = Some 0" by (simp add: uniterable_kind_def)
    from Some have ik: "inherited_key ?k" by (simp add: inherited_key_def)
    from nm Some len have tbl: "rule_table ps ?k = Inr (Member (Some 0))"
      by (simp add: rule_table_def)
    have "?rs = []"
      by (simp add: custom_rules_inherited[OF nm ik] default_rules_inherited[OF ik])
    then have "resolved ?rs c = c" "thrown ?rs c = []"
      by (simp_all add: resolved_def)
    moreover have "apply_type_rules (Member (Some 0)) c callback
                     = finish callback [ArgValue c] (Inr c) []"
      by (simp add: apply_type_rules_def)
    ultimately show ?thesis
      by (simp only: parseContent_rules[OF g tbl cv])
  qed
qed

text \<open>
  The calls that are left out above, which all throw a TypeError once the content is
  extracted: a rule table that is \<^verbatim>\<open>null\<close>, an array or a function under a key
  that the table inherits, a kind without a primitive value, and a kind whose rule list
  cannot be iterated.
\<close>

lemma table_failures:
  assumes g: "get_content (type_of r) (body r) = Inr c"
  shows "fst (parseContent_nullable st (Some r) None callback)
           = \<lparr>result = Inl TypeError, calls = [], warnings = []\<rparr>"
    and "merge_fails ps \<or> unconvertible (type_of r) \<or> uniterable_kind (to_string (type_of r))
           \<Longrightarrow> fst (parseContent st (Some r) ps callback)
                 = \<lparr>result = Inl TypeError, calls = [], warnings = []\<rparr>"
proof -
  show "fst (parseContent_nullable st (Some r) None callback)
           = \<lparr>result = Inl TypeError, calls = [], warnings = []\<rparr>"
    using g by (simp add: parseContent_nullable_def)
  assume bad: "merge_fails ps \<or> unconvertible (type_of r) \<or> uniterable_kind (to_string (type_of r))"
  show "fst (parseContent st (Some r) ps callback)
          = \<lparr>result = Inl TypeError, calls = [], warnings = []\<rparr>"
  proof (cases "merge_fails ps")
    case True
    then show ?thesis by (simp add: parseContent_after[OF g] rule_table_def)
  next
    case nm: False
    show ?thesis
    proof (cases "unconvertible (type_of r)")
      case True
      then show ?thesis
        by (simp add: parseContent_after[OF g] rule_table_def split: sum.splits option.splits)
    next
      case False
      with bad nm have "uniterable_kind (to_string (type_of r))" by simp
      then obtain len where "object_prototype (to_string (type_of r)) = Some len" "len \<noteq> Some 0"
        by (auto simp: uniterable_kind_def split: option.splits)
      then show ?thesis
        using nm False by (simp add: parseContent_after[OF g] rule_table_def apply_type_rules_def)
    qed
  qed
qed

text \<open>
  A rule that throws a value without a readable message, before any rule has produced a
  result, ends the call with what the \<^verbatim>\<open>catch\<close> block throws.
\<close>

lemma unreadable_throw:
  assumes nm: "\<not> merge_fails ps" and ki: "\<not> inherited_key (to_string (type_of r))"
    and cv: "\<not> unconvertible (type_of r)"
    and g: "get_content (type_of r) (body r) = Inr c"
    and rs: "custom_rules ps (to_string (type_of r)) @ default_rules (to_string (type_of r))
               = pre @ ro # post"
    and pre: "\<forall>x \<in> set (thrown pre c). has_message x" "first_result pre c = None"
    and ro: "try_rule ro c = Inl err" "message_error err = Some e"
  shows "fst (parseContent st (Some r) ps callback)
           = \<lparr>result = Inl e, calls = [], warnings = thrown pre c\<rparr>"
proof -
  let ?k = "to_string (type_of r)"
  from nm ki have tbl: "rule_table ps ?k = Inr (RuleList (pre @ ro # post))"
    by (simp add: rule_table_def inherited_key_def rs)
  have "run_rules (pre @ ro # post) c [] = (Inl e, thrown pre c)"
    using run_rules_unreadable[OF refl pre ro, of post "[]"] by simp
  then show ?thesis
    by (simp add: parseContent_rules[OF g tbl cv] apply_type_rules_def)
qed

subsection \<open>Claims about parseContent\<close>




text \<open>
  C4: for every sequence of calls, each call behaves as a first call on an empty store,
  whatever rule tables the calls before it were given, and it leaves the cells of the
  store it started on as they were. The rule list of a kind is the caller's rules in
  front of the defaults, and the defaults are one always-true rule for each of
  \<^verbatim>\<open>json\<close>, \<^verbatim>\<open>html\<close> and \<^verbatim>\<open>text\<close>.
\<close>

theorem C4_fresh_defaults:
  "run_calls st cs = map (\<lambda>c. fst (parseContent [] (fst c) (fst (snd c)) (snd (snd c)))) cs
   \<and> take (length st) (snd (parseContent st response ps callback)) = st
   \<and> (\<not> merge_fails ps \<and> \<not> inherited_key k \<longrightarrow>
        fst (effective_rules st ps k) = Inr (RuleList (custom_rules ps k @ default_rules k)))
   \<and> fst (effective_rules st [] ''json'') = Inr (RuleList [json_default])
   \<and> fst (effective_rules st [] ''html'') = Inr (RuleList [identity_default])
   \<and> fst (effective_rules st [] ''text'') = Inr (RuleList [identity_default])
   \<and> rule json_default = always \<and> rule identity_default = always"
proof -
  have known: "object_prototype ''json'' = None" "object_prototype ''html'' = None"
    "object_prototype ''text'' = None"
    by (simp_all add: object_prototype_def)
  have "\<not> merge_fails []" by (simp add: merge_fails_def)
  then show ?thesis
    using known
    by (simp add: run_calls_independent parseContent_frame effective_rules_eq rule_table_def
          inherited_key_def default_rules_def json_default_def identity_default_def)
qed

theorem C4_fresh_defaults_witness:
  "map result (run_calls []
     [(Some \<lparr>rtype = JStr ''text'', body = JStr ''abc''\<rparr>,
       [(''text'', ParseFunction uppercase)], None),
      (Some \<lparr>rtype = JStr ''text'', body = JStr ''abc''\<rparr>, [], None)])
     = [Inr (JStr ''ABC''), Inr (JStr ''abc'')]
   \<and> fst (effective_rules [[identity_default]] [(''text'', ParseFunction uppercase)] ''text'')
       = Inr (RuleList [\<lparr>rule = always, parse = Single uppercase\<rparr>, identity_default])"
proof -
  let ?ps = "[(''text'', ParseFunction uppercase)]"
  let ?r = "\<lparr>rtype = JStr ''text'', body = JStr ''abc''\<rparr>"
  let ?cs = "[(Some ?r, ?ps, None), (Some ?r, [], None :: callback option)]"
  have a: "\<not> merge_fails ?ps \<and> \<not> inherited_key ''text''"
    by (simp add: merge_fails_def inherited_key_def object_prototype_def)
  have 1: "result (fst (parseContent [] (Some ?r) ?ps None)) = Inr (JStr ''ABC'')"
    by code_simp
  have 2: "result (fst (parseContent [] (Some ?r) [] None)) = Inr (JStr ''abc'')"
    by code_simp
  note T = C4_fresh_defaults[where st = "[[identity_default]]" and ps = ?ps and k = "''text''"]
  have "fst (effective_rules [[identity_default]] ?ps ''text'')
          = Inr (RuleList (custom_rules ?ps ''text'' @ default_rules ''text''))"
    by (rule mp[OF T[THEN conjunct2, THEN conjunct2, THEN conjunct1] a])
  then have e: "fst (effective_rules [[identity_default]] ?ps ''text'')
          = Inr (RuleList [\<lparr>rule = always, parse = Single uppercase\<rparr>, identity_default])"
    by (simp add: entry_rules_def default_rules_def)
  have "run_calls [] ?cs
          = map (\<lambda>c. fst (parseContent [] (fst c) (fst (snd c)) (snd (snd c)))) ?cs"
    by (rule C4_fresh_defaults[where st = "[]" and cs = ?cs, THEN conjunct1])
  then have "map result (run_calls [] ?cs) = [Inr (JStr ''ABC''), Inr (JStr ''abc'')]"
    using 1 2 by simp
  with e show ?thesis by simp
qed

text \<open>
  C5, on inputs on which the code breaks it. For kind \<^verbatim>\<open>text\<close> and the custom
  rules \<^verbatim>\<open>[{rule: () => { throw null }, parse: c => c}, {rule: () => true, parse: c => c.toUpperCase()}]\<close>,
  the first rule whose predicate returns true is the second one, whose transform gives
  \<^verbatim>\<open>"ABC"\<close>; the call throws a TypeError instead, from the \<^verbatim>\<open>catch\<close> block
  that reads \<^verbatim>\<open>err.message\<close>. For the payload kind \<^verbatim>\<open>constructor\<close> the
  table finds the inherited member \<^verbatim>\<open>Object\<close> in place of a rule list: with a
  custom rule for that kind \<^verbatim>\<open>unshift\<close> throws a TypeError, and with no custom
  rule the loop over the member does.
\<close>

theorem C5_order_broken:
  "no_match \<lparr>rule = (\<lambda>content. Inl (ThrownValue JNull)), parse = Single (\<lambda>content. Inr content)\<rparr>
     (JStr ''abc'')
   \<and> matches \<lparr>rule = always, parse = Single uppercase\<rparr> (JStr ''abc'')
   \<and> apply_parse (parse \<lparr>rule = always, parse = Single uppercase\<rparr>) (JStr ''abc'')
       = Inr (JStr ''ABC'')
   \<and> result (fst (parseContent [] (Some \<lparr>rtype = JStr ''text'', body = JStr ''abc''\<rparr>)
        [(''text'', RuleArray
            [\<lparr>rule = (\<lambda>content. Inl (ThrownValue JNull)), parse = Single (\<lambda>content. Inr content)\<rparr>,
             \<lparr>rule = always, parse = Single uppercase\<rparr>])] None)) = Inl TypeError
   \<and> result (fst (parseContent [] (Some \<lparr>rtype = JStr ''constructor'', body = JStr ''abc''\<rparr>)
        [(''constructor'', RuleArray [\<lparr>rule = always, parse = Single uppercase\<rparr>])] None))
       = Inl TypeError
   \<and> result (fst (parseContent [] (Some \<lparr>rtype = JStr ''constructor'', body = JStr ''abc''\<rparr>)
        [] None)) = Inl TypeError"
  by code_simp

text \<open>
  The rule order on the other inputs. The rule list of a kind has the caller's rules for
  the kind before the built-in default rules. When the rules in front of a rule do not
  match, throwing only values with a readable message, and that rule matches and its
  transform returns, the call hands that output to the callback and returns it; when its
  transform raises a value with a readable message, the loop goes on with the rules
  after it. With a custom rule for kind \<^verbatim>\<open>text\<close> that always matches and
  uppercases, \<^verbatim>\<open>resolve({kind:"text", body:"abc"})\<close> returns \<^verbatim>\<open>"ABC"\<close>.
\<close>

lemma rule_order:
  "(\<not> merge_fails ps \<and> \<not> inherited_key k \<longrightarrow>
        fst (effective_rules st ps k) = Inr (RuleList (custom_rules ps k @ default_rules k)))
   \<and> (\<not> merge_fails ps \<and> \<not> inherited_key (to_string (type_of r))
        \<and> \<not> unconvertible (type_of r)
        \<and> get_content (type_of r) (body r) = Inr content
        \<and> custom_rules ps (to_string (type_of r)) @ default_rules (to_string (type_of r))
            = pre @ ro # rest
        \<and> (\<forall>p \<in> set pre. no_match p content) \<and> (\<forall>x \<in> set (thrown pre content). has_message x)
        \<and> matches ro content \<and> apply_parse (parse ro) content = Inr x
      \<longrightarrow> fst (parseContent st (Some r) ps callback)
            = finish callback [ArgValue x] (Inr x) (thrown pre content))
   \<and> ((\<forall>p \<in> set pre. no_match p content) \<and> (\<forall>x \<in> set (thrown pre content). has_message x)
        \<and> matches ro content \<and> apply_parse (parse ro) content = Inl err \<and> has_message err
      \<longrightarrow> fst (run_rules (pre @ ro # rest) content []) = fst (run_rules rest content []))
   \<and> result (fst (parseContent st (Some \<lparr>rtype = JStr ''text'', body = JStr ''abc''\<rparr>)
                  [(''text'', RuleArray [\<lparr>rule = always, parse = Single uppercase\<rparr>])] None))
       = Inr (JStr ''ABC'')"
proof (intro conjI impI)
  assume "\<not> merge_fails ps \<and> \<not> inherited_key k"
  then show "fst (effective_rules st ps k) = Inr (RuleList (custom_rules ps k @ default_rules k))"
    by (simp add: effective_rules_eq rule_table_def inherited_key_def)
next
  let ?k = "to_string (type_of r)"
  let ?rs = "custom_rules ps ?k @ default_rules ?k"
  assume h: "\<not> merge_fails ps \<and> \<not> inherited_key ?k \<and> \<not> unconvertible (type_of r)
        \<and> get_content (type_of r) (body r) = Inr content
        \<and> ?rs = pre @ ro # rest
        \<and> (\<forall>p \<in> set pre. no_match p content) \<and> (\<forall>x \<in> set (thrown pre content). has_message x)
        \<and> matches ro content \<and> apply_parse (parse ro) content = Inr x"
  then have nm: "\<not> merge_fails ps" and cv: "\<not> unconvertible (type_of r)"
    and g: "get_content (type_of r) (body r) = Inr content" and rs: "?rs = pre @ ro # rest"
    and pre: "\<forall>p \<in> set pre. no_match p content"
    and m: "matches ro content" "apply_parse (parse ro) content = Inr x"
    by simp_all
  from h have ki: "\<not> uniterable_kind ?k"
    by (simp add: uniterable_kind_def inherited_key_def)
  have th: "thrown ?rs content = thrown pre content"
    unfolding rs
    by (simp add: first_result_skip(2)[OF pre] first_result_match(2)[OF m] del: thrown.simps)
  have fr: "resolved ?rs content = x"
    unfolding rs
    by (simp add: resolved_def first_result_skip(1)[OF pre] first_result_match(1)[OF m]
             del: first_result.simps)
  from h th have rd: "\<forall>x \<in> set (thrown ?rs content). has_message x" by simp
  show "fst (parseContent st (Some r) ps callback)
          = finish callback [ArgValue x] (Inr x) (thrown pre content)"
    using resolve_readable[OF nm ki cv g rd, of st callback] by (simp only: th fr)
next
  assume h: "(\<forall>p \<in> set pre. no_match p content) \<and> (\<forall>x \<in> set (thrown pre content). has_message x)
        \<and> matches ro content \<and> apply_parse (parse ro) content = Inl err \<and> has_message err"
  then have pre: "\<forall>p \<in> set pre. no_match p content"
    and m: "matches ro content" "apply_parse (parse ro) content = Inl err" by simp_all
  show "fst (run_rules (pre @ ro # rest) content []) = fst (run_rules rest content [])"
  proof -
    from m(1) obtain b where "rule ro content = Inr b" "truthy b"
      by (auto simp: matches_def split: sum.splits)
    with m(2) have t: "try_rule ro content = Inl err" by (simp add: try_rule_def)
    from h have me: "message_error err = None" by (simp add: has_message_def)
    have skip: "fst (run_rules (pre @ rs) content w) = fst (run_rules rs content [])" for rs w
      using pre h
    proof (induction pre arbitrary: w)
      case Nil
      show ?case by (simp add: run_rules_fst[of rs content w])
    next
      case (Cons p pre)
      from Cons.prems(1) have np: "no_match p content" and rest: "\<forall>p \<in> set pre. no_match p content"
        by simp_all
      show ?case
      proof (cases "try_rule p content")
        case (Inl x)
        with Cons.prems(2) have "message_error x = None"
          and "(\<forall>p \<in> set pre. no_match p content) \<and> (\<forall>x \<in> set (thrown pre content). has_message x)
                 \<and> matches ro content \<and> apply_parse (parse ro) content = Inl err \<and> has_message err"
          using rest by (simp_all add: has_message_def)
        with Inl Cons.IH[OF rest, of "w @ [x]"] show ?thesis by simp
      next
        case (Inr q)
        with np have q: "q = None"
          by (auto simp: no_match_def try_rule_def split: sum.splits if_splits)
        with Inr Cons.prems(2) have
          "(\<forall>p \<in> set pre. no_match p content) \<and> (\<forall>x \<in> set (thrown pre content). has_message x)
             \<and> matches ro content \<and> apply_parse (parse ro) content = Inl err \<and> has_message err"
          using rest by simp
        with Inr q Cons.IH[OF rest, of w] show ?thesis by simp
      qed
    qed
    have "fst (run_rules (pre @ ro # rest) content []) = fst (run_rules (ro # rest) content [])"
      by (rule skip)
    also have "\<dots> = fst (run_rules rest content [err])" using t me by simp
    also have "\<dots> = fst (run_rules rest content [])" by (rule run_rules_fst)
    finally show ?thesis .
  qed
next
  let ?r = "\<lparr>rtype = JStr ''text'', body = JStr ''abc''\<rparr>"
  let ?ps = "[(''text'', RuleArray [\<lparr>rule = always, parse = Single uppercase\<rparr>])]"
  have g: "get_content (type_of ?r) (body ?r) = Inr (JStr ''abc'')"
    by (simp add: get_content_def type_of_def)
  have t: "rule_table ?ps (to_string (type_of ?r))
             = Inr (RuleList [\<lparr>rule = always, parse = Single uppercase\<rparr>, identity_default])"
    by (simp add: rule_table_def merge_fails_def inherited_key_def object_prototype_def type_of_def
          entry_rules_def default_rules_def)
  have cv: "\<not> unconvertible (type_of ?r)" by (simp add: type_of_def)
  have u: "uppercase (JStr ''abc'') = Inr (JStr ''ABC'')"
    by code_simp
  show "result (fst (parseContent st (Some ?r) ?ps None)) = Inr (JStr ''ABC'')"
    unfolding parseContent_rules[OF g t cv]
    by (simp add: apply_type_rules_def try_rule_def always_def apply_parse_def u
          finish_no_callback)
qed

text \<open>
  C6, as stated: when content extraction fails, the callback receives the error object
  in its first argument slot, the slot of the result. It fails on the code: for the
  body \<^verbatim>\<open>not json\<close> of kind json the callback is called once, with
  \<^verbatim>\<open>null\<close> in the first slot and the error in the second (line 19).
\<close>

theorem C6_error_slot:
  "calls (fst (parseContent [] (Some \<lparr>rtype = JStr ''json'', body = JStr ''not json''\<rparr>) []
                 (Some (\<lambda>args. None))))
     = [[ArgValue JNull, ArgError (ParseFailed SyntaxError)]]"
  by code_simp

text \<open>
  C6, amended: a call that is given a callback calls it at most once, within the call.
  When the call returns a value, the callback was called with that value as its only
  argument. When content extraction fails, the callback is called, before the error is
  thrown, with \<^verbatim>\<open>null\<close> in its first slot and the error object in its second.
\<close>

theorem C6_callback:
  "length (calls (fst (parseContent st response ps (Some cb)))) \<le> 1
   \<and> (result (fst (parseContent st response ps (Some cb))) = Inr v \<longrightarrow>
        calls (fst (parseContent st response ps (Some cb))) = [[ArgValue v]])
   \<and> (get_content (type_of r) (body r) = Inl err \<longrightarrow>
        calls (fst (parseContent st (Some r) ps (Some cb)))
          = [[ArgValue JNull, ArgError (ParseFailed err)]])"
proof (intro conjI impI)
  assume "get_content (type_of r) (body r) = Inl err"
  then show "calls (fst (parseContent st (Some r) ps (Some cb)))
          = [[ArgValue JNull, ArgError (ParseFailed err)]]"
    by (simp add: parseContent_failed finish_calls)
next
  show "length (calls (fst (parseContent st response ps (Some cb)))) \<le> 1"
  proof (cases response)
    case None
    then show ?thesis by (simp add: parseContent_def)
  next
    case (Some r)
    show ?thesis
    proof (cases "get_content (type_of r) (body r)")
      case (Inl err)
      then show ?thesis using Some by (simp add: parseContent_failed finish_calls)
    next
      case (Inr content)
      show ?thesis
      proof (cases "rule_table ps (to_string (type_of r))")
        case (Inl e)
        then show ?thesis using Some Inr by (simp add: parseContent_after)
      next
        case tr: (Inr tr)
        with apply_type_rules_calls[of tr content cb] show ?thesis
          using Some Inr by (auto simp: parseContent_after)
      qed
    qed
  qed
next
  assume ok: "result (fst (parseContent st response ps (Some cb))) = Inr v"
  show "calls (fst (parseContent st response ps (Some cb))) = [[ArgValue v]]"
  proof (cases response)
    case None
    with ok show ?thesis by (simp add: parseContent_def)
  next
    case (Some r)
    show ?thesis
    proof (cases "get_content (type_of r) (body r)")
      case (Inl err)
      with ok Some show ?thesis
        by (auto simp: parseContent_failed finish_def invoke_def split: option.splits)
    next
      case (Inr content)
      show ?thesis
      proof (cases "rule_table ps (to_string (type_of r))")
        case (Inl e)
        with ok Some Inr show ?thesis by (simp add: parseContent_after)
      next
        case tr: (Inr tr)
        with ok Some Inr have cv: "\<not> unconvertible (type_of r)"
          and "result (apply_type_rules tr content (Some cb)) = Inr v"
          by (simp_all add: parseContent_after split: if_splits)
        from apply_type_rules_returns[OF this(2)] show ?thesis
          using Some Inr tr cv by (simp add: parseContent_after)
      qed
    qed
  qed
qed

theorem C6_callback_witness:
  "result (fst (parseContent [] (Some \<lparr>rtype = JStr ''text'', body = JStr ''abc''\<rparr>) []
                  (Some (\<lambda>args. None)))) = Inr (JStr ''abc'')
   \<and> calls (fst (parseContent [] (Some \<lparr>rtype = JStr ''text'', body = JStr ''abc''\<rparr>) []
                  (Some (\<lambda>args. None)))) = [[ArgValue (JStr ''abc'')]]
   \<and> get_content (type_of \<lparr>rtype = JStr ''json'', body = JStr ''{''\<rparr>)
        (body \<lparr>rtype = JStr ''json'', body = JStr ''{''\<rparr>) = Inl SyntaxError
   \<and> calls (fst (parseContent [] (Some \<lparr>rtype = JStr ''json'', body = JStr ''{''\<rparr>) []
                  (Some (\<lambda>args. None))))
       = [[ArgValue JNull, ArgError (ParseFailed SyntaxError)]]"
proof -
  let ?cb = "\<lambda>args :: cbarg list. (None :: error option)"
  let ?t = "\<lparr>rtype = JStr ''text'', body = JStr ''abc''\<rparr>"
  let ?j = "\<lparr>rtype = JStr ''json'', body = JStr ''{''\<rparr>"
  have 1: "result (fst (parseContent [] (Some ?t) [] (Some ?cb))) = Inr (JStr ''abc'')"
    by code_simp
  have 2: "calls (fst (parseContent [] (Some ?t) [] (Some ?cb))) = [[ArgValue (JStr ''abc'')]]"
    by (rule mp[OF C6_callback[where st = "[]" and response = "Some ?t" and ps = "[]"
                     and cb = ?cb and v = "JStr ''abc''", THEN conjunct2, THEN conjunct1] 1])
  have "JSON_parse ''{'' = Inl SyntaxError" by code_simp
  then have 3: "get_content (type_of ?j) (body ?j) = Inl SyntaxError"
    by (simp add: get_content_def type_of_def)
  have 4: "calls (fst (parseContent [] (Some ?j) [] (Some ?cb)))
             = [[ArgValue JNull, ArgError (ParseFailed SyntaxError)]]"
    by (rule mp[OF C6_callback[where st = "[]" and r = ?j and ps = "[]" and cb = ?cb
                     and err = SyntaxError, THEN conjunct2, THEN conjunct2] 3])
  from 1 2 3 4 show ?thesis by simp
qed

text \<open>
  C7: \<^verbatim>\<open>resolve({kind:"json", body:'{"a":1}'})\<close> with no custom rules returns
  the parsed object \<^verbatim>\<open>{a:1}\<close>, the result of parsing the body. The default json
  rule parses the parsed content again, as the text \<^verbatim>\<open>[object Object]\<close>; that
  fails, is reported as a warning, and the call falls back on the content.
\<close>

theorem C7_json_example:
  "fst (parseContent st (Some \<lparr>rtype = JStr ''json'', body = JStr a1_text\<rparr>) [] None)
     = \<lparr>result = JSON_parse a1_text, calls = [], warnings = [SyntaxError]\<rparr>
   \<and> JSON_parse a1_text = Inr (JObj [(''a'', JNum 1)])
   \<and> apply_parse (parse json_default) (JObj [(''a'', JNum 1)]) = Inl SyntaxError"
proof -
  let ?r = "\<lparr>rtype = JStr ''json'', body = JStr a1_text\<rparr>"
  let ?c = "JObj [(''a'', JNum 1)]"
  have p: "JSON_parse a1_text = Inr ?c"
    unfolding a1_text_def by code_simp
  have q: "JSON_parse ''[object Object]'' = Inl SyntaxError"
    by code_simp
  have g: "get_content (type_of ?r) (body ?r) = Inr ?c"
    by (simp add: get_content_def type_of_def p)
  have t: "rule_table [] (to_string (type_of ?r)) = Inr (RuleList [json_default])"
    by (simp add: rule_table_def merge_fails_def object_prototype_def type_of_def default_rules_def)
  have a: "apply_parse (parse json_default) ?c = Inl SyntaxError"
    by (simp add: apply_parse_def json_default_def q)
  have "try_rule json_default ?c = Inl SyntaxError"
    using a by (simp add: try_rule_def json_default_def always_def)
  then have "fst (parseContent st (Some ?r) [] None)
               = \<lparr>result = Inr ?c, calls = [], warnings = [SyntaxError]\<rparr>"
    unfolding parseContent_after[OF g] t
    by (simp add: apply_type_rules_def message_error_def type_of_def finish_no_callback)
  with p a show ?thesis by simp
qed

text \<open>
  C8, on the input on which the code breaks it: a custom rule for kind \<^verbatim>\<open>text\<close>
  whose transform throws \<^verbatim>\<open>null\<close>. Every rule whose predicate returned true had
  its transform raise before the default rule was reached, yet the call does not fall
  back on the content \<^verbatim>\<open>abc\<close>: reading \<^verbatim>\<open>err.message\<close> in the
  \<^verbatim>\<open>catch\<close> block throws a TypeError, which reaches the caller.
\<close>

theorem C8_nullish_throw:
  "result (fst (parseContent [] (Some \<lparr>rtype = JStr ''text'', body = JStr ''abc''\<rparr>)
                  [(''text'', ParseFunction (\<lambda>content. Inl (ThrownValue JNull)))] None))
     = Inl TypeError"
  by code_simp

text \<open>
  The fallback policy on the other inputs: for a rule table without an array or a
  function under an inherited key, a kind with a primitive value and a rule list that
  can be iterated, when the rules throw only values with a readable message and every
  rule that matches has its transform raise, the call hands the content to the callback
  and returns it.
\<close>

lemma fallback_on_content:
  assumes "\<not> merge_fails ps" "\<not> uniterable_kind (to_string (type_of r))"
    and "\<not> unconvertible (type_of r)"
    and "get_content (type_of r) (body r) = Inr content"
    and "\<forall>x \<in> set (thrown (custom_rules ps (to_string (type_of r))
                            @ default_rules (to_string (type_of r))) content). has_message x"
    and "\<forall>ro \<in> set (custom_rules ps (to_string (type_of r)) @ default_rules (to_string (type_of r))).
           matches ro content \<longrightarrow> (\<exists>err. apply_parse (parse ro) content = Inl err)"
  shows "\<exists>w. fst (parseContent st (Some r) ps callback)
               = finish callback [ArgValue content] (Inr content) w"
proof -
  let ?rs = "custom_rules ps (to_string (type_of r)) @ default_rules (to_string (type_of r))"
  have "resolved ?rs content = content"
    by (simp add: resolved_def first_result_none[OF assms(6)])
  with resolve_readable[OF assms(1-5), of st callback] show ?thesis by auto
qed

text \<open>
  C10: a payload whose kind is absent or falsy is treated exactly as kind
  \<^verbatim>\<open>text\<close>: the content is the body unchanged (the json extraction is not
  taken), the rule list consulted is the one of \<^verbatim>\<open>text\<close>, and the whole call
  is the call on the same payload with kind \<^verbatim>\<open>text\<close>.
\<close>

theorem C10_falsy_kind:
  assumes "\<not> truthy (rtype r)"
  shows "get_content (type_of r) (body r) = Inr (body r)
     \<and> effective_rules st ps (to_string (type_of r)) = effective_rules st ps ''text''
     \<and> parseContent st (Some r) ps callback
         = parseContent st (Some (r\<lparr>rtype := JStr ''text''\<rparr>)) ps callback"
proof -
  from assms have t: "type_of r = JStr ''text''"
    and t': "type_of (r\<lparr>rtype := JStr ''text''\<rparr>) = JStr ''text''"
    and b: "body (r\<lparr>rtype := JStr ''text''\<rparr>) = body r"
    by (simp_all add: type_of_def)
  have "parseContent st (Some r) ps callback
          = parseContent st (Some (r\<lparr>rtype := JStr ''text''\<rparr>)) ps callback"
    unfolding parseContent_def option.case t t' b ..
  then show ?thesis by (simp add: t get_content_def)
qed

theorem C10_falsy_kind_witness:
  "\<not> truthy (rtype \<lparr>rtype = JNum 0, body = JStr ''{''\<rparr>)
   \<and> get_content (type_of \<lparr>rtype = JNum 0, body = JStr ''{''\<rparr>) (JStr ''{'') = Inr (JStr ''{'')
   \<and> parseContent [] (Some \<lparr>rtype = JNum 0, body = JStr ''{''\<rparr>) [] None
       = parseContent [] (Some \<lparr>rtype = JStr ''text'', body = JStr ''{''\<rparr>) [] None"
proof -
  have f: "\<not> truthy (rtype \<lparr>rtype = JNum 0, body = JStr ''{''\<rparr>)" by simp
  from C10_falsy_kind[OF f, of "[]" "[]" None] f show ?thesis by simp
qed

end
